theory Spec2Isabelle
  imports
    Complex_Main
    "HOL-Library.Word"
    "HOL-Library.AList"
    "HOL-Library.Char_ord"
    "HOL-Library.List_Lexorder"
begin

unbundle bit_operations_syntax

section \<open>Strings and primitive values\<close>

text \<open>
  A JavaScript string is a sequence of code units. The development covers the code
  units 0..255 (type \<^typ>\<open>char\<close>, read through \<^term>\<open>of_char\<close>); on this range
  \<^verbatim>\<open>toLowerCase\<close>, \<^verbatim>\<open>trim\<close> and the regular-expression classes \<^verbatim>\<open>\w\<close>,
  \<^verbatim>\<open>\d\<close>, \<^verbatim>\<open>\s\<close> are written out as ECMAScript defines them.
\<close>

definition code_unit :: "char \<Rightarrow> nat" where
  "code_unit c = of_char c"

definition lower_char :: "char \<Rightarrow> char" where
  "lower_char c =
     (let n = code_unit c in
      if (65 \<le> n \<and> n \<le> 90) \<or> (192 \<le> n \<and> n \<le> 222 \<and> n \<noteq> 215)
      then char_of (n + 32) else c)"

definition toLowerCase :: "string \<Rightarrow> string" where
  "toLowerCase s = map lower_char s"

text \<open>White space and line terminators, as \<^verbatim>\<open>trim\<close> and \<^verbatim>\<open>\s\<close> read them.\<close>

definition is_space :: "char \<Rightarrow> bool" where
  "is_space c = (code_unit c \<in> {9, 10, 11, 12, 13, 32, 160})"

definition trim :: "string \<Rightarrow> string" where
  "trim s = rev (dropWhile is_space (rev (dropWhile is_space s)))"

definition is_digit :: "char \<Rightarrow> bool" where
  "is_digit c = (48 \<le> code_unit c \<and> code_unit c \<le> 57)"

text \<open>The class \<^verbatim>\<open>[A-Za-z_]\<close>.\<close>

definition is_alpha :: "char \<Rightarrow> bool" where
  "is_alpha c =
     (let n = code_unit c in (65 \<le> n \<and> n \<le> 90) \<or> (97 \<le> n \<and> n \<le> 122) \<or> n = 95)"

text \<open>The class \<^verbatim>\<open>\w\<close>, that is \<^verbatim>\<open>[A-Za-z0-9_]\<close>.\<close>

definition is_word :: "char \<Rightarrow> bool" where
  "is_word c = (is_alpha c \<or> is_digit c)"

text \<open>The number a run of decimal digits denotes.\<close>

definition parse_nat :: "string \<Rightarrow> nat" where
  "parse_nat s = foldl (\<lambda>a c. 10 * a + (code_unit c - 48)) 0 s"

text \<open>
  JavaScript numbers are kept abstract: a linearly ordered type \<open>'n\<close> (the parsers
  and JSON never produce NaN, and \<open>-0\<close> and \<open>0\<close> compare equal) together with the
  built-in conversions the program calls on them: \<^verbatim>\<open>String(n)\<close>, \<^verbatim>\<open>Number.parseFloat\<close>,
  \<^verbatim>\<open>Number.parseInt(s, 10)\<close>, the number that is an array's length, and whether a
  number is finite (\<^verbatim>\<open>JSON.stringify\<close> writes the others as \<^verbatim>\<open>null\<close>).
\<close>

record 'n numeric =
  num_to_string :: "'n \<Rightarrow> string"
  parse_float :: "string \<Rightarrow> 'n"
  parse_int :: "string \<Rightarrow> 'n"
  of_count :: "nat \<Rightarrow> 'n"
  is_finite :: "'n \<Rightarrow> bool"

datatype 'n jsval = Num 'n | Str string | Bool bool | Null | Undefined

text \<open>\<^verbatim>\<open>String(v)\<close>.\<close>

fun js_string :: "'n numeric \<Rightarrow> 'n jsval \<Rightarrow> string" where
  "js_string J (Num n) = num_to_string J n"
| "js_string J (Str s) = s"
| "js_string J (Bool b) = (if b then ''true'' else ''false'')"
| "js_string J Null = ''null''"
| "js_string J Undefined = ''undefined''"

text \<open>A string is truthy when it is present and not empty (\<^verbatim>\<open>x || y\<close>, \<^verbatim>\<open>!x\<close>).\<close>

fun truthy :: "string option \<Rightarrow> bool" where
  "truthy None = False"
| "truthy (Some s) = (s \<noteq> [])"

text \<open>\<^verbatim>\<open>Array.prototype.indexOf\<close>: the first position, or \<open>-1\<close>.\<close>

fun indexOf :: "'a list \<Rightarrow> 'a \<Rightarrow> int" where
  "indexOf [] v = -1"
| "indexOf (x # xs) v = (if x = v then 0 else (let i = indexOf xs v in if i < 0 then -1 else i + 1))"

section \<open>Ruleset, rules and the field map\<close>

text \<open>
  The ruleset is the JSON resource \<^verbatim>\<open>rules.json\<close>. A member the program reads
  through \<^verbatim>\<open>x || default\<close> or \<^verbatim>\<open>x?.y\<close> may be missing and is an option here; a
  missing collection is the empty list, as \<^verbatim>\<open>(x || [])\<close> and \<^verbatim>\<open>(x || {})\<close> make it.
  Objects are association lists in the order of \<^verbatim>\<open>Object.entries\<close>.
\<close>

record 'n cond =
  c_raw :: "string option"
  c_field :: "string option"
  c_op :: "string option"
  c_value :: "'n jsval"

record consequence =
  judgement :: "string option"

record 'n rule =
  rule_id :: string
  rule_name :: string
  rule_cit :: "string option"
  rule_level :: "string option"
  rule_if :: "'n cond list"
  rule_then :: "consequence option"

record 'n ruleset =
  rs_spec :: "'n jsval"
  rs_version :: "'n jsval"
  rs_source :: "'n jsval"
  defaults_level :: "string option"
  aliases :: "(string \<times> string list) list"
  ordinal_scales :: "(string \<times> string list) list"
  rules :: "'n rule list"

text \<open>
  The field map is a JavaScript \<^verbatim>\<open>Map\<close>: an association list in insertion order.
  \<^verbatim>\<open>map.set\<close> replaces the value of a key in place and appends a new key at the end
  (\<^const>\<open>AList.update\<close>); \<^verbatim>\<open>map.has\<close> and \<^verbatim>\<open>map.get\<close> are \<^const>\<open>map_of\<close>.
\<close>

type_synonym 'n fieldmap = "(string \<times> 'n jsval) list"

definition map_set :: "string \<Rightarrow> 'n jsval \<Rightarrow> 'n fieldmap \<Rightarrow> 'n fieldmap" where
  "map_set k v m = AList.update k v m"

definition map_has :: "'n fieldmap \<Rightarrow> string \<Rightarrow> bool" where
  "map_has m k = (map_of m k \<noteq> None)"

definition map_get :: "'n fieldmap \<Rightarrow> string \<Rightarrow> 'n jsval option" where
  "map_get m k = map_of m k"

section \<open>Condition evaluation\<close>

text \<open>
  What the program throws: the \<^verbatim>\<open>TypeError\<close> of a property read on \<^verbatim>\<open>undefined\<close> or of a
  call of something that is no function, the tokenizer's error (message, line, column,
  context snippet) and the parser's (message, line and column of the offending token).
\<close>

datatype js_error =
    TypeError string
  | LexError string nat nat string
  | ParseError string nat nat

text \<open>
  The object \<^verbatim>\<open>ruleset.ordinal_scales\<close> (or \<^verbatim>\<open>{}\<close> in its place) is an ordinary object: the
  read \<^verbatim>\<open>(ruleset.ordinal_scales || {})[field]\<close> finds the object's own property of that
  name, and otherwise the member of \<^verbatim>\<open>Object.prototype\<close> of that name, if there is one.
  These are the names of the members of \<^verbatim>\<open>Object.prototype\<close>; each of them is a function,
  or for \<^verbatim>\<open>__proto__\<close> the prototype object itself, hence truthy and without a member
  \<^verbatim>\<open>map\<close>.
\<close>

definition object_prototype_names :: "string list" where
  "object_prototype_names =
     [''constructor'', ''__defineGetter__'', ''__defineSetter__'', ''hasOwnProperty'',
      ''__lookupGetter__'', ''__lookupSetter__'', ''isPrototypeOf'', ''propertyIsEnumerable'',
      ''toString'', ''valueOf'', ''__proto__'', ''toLocaleString'']"

text \<open>
  \<^verbatim>\<open>ordinalIndex\<close>. On a scale of the ruleset's own, the position of the value or \<^verbatim>\<open>null\<close>;
  with no scale of that name, \<^verbatim>\<open>null\<close>, unless the name is inherited from
  \<^verbatim>\<open>Object.prototype\<close>: then \<^verbatim>\<open>scale\<close> is truthy and the call \<^verbatim>\<open>scale.map(...)\<close> throws.
\<close>

definition ordinalIndex ::
  "'n numeric \<Rightarrow> 'n ruleset \<Rightarrow> string \<Rightarrow> 'n jsval \<Rightarrow> js_error + nat option" where
  "ordinalIndex J rs field v =
     (case map_of (ordinal_scales rs) field of
        None \<Rightarrow>
          (if field \<in> set object_prototype_names
           then Inl (TypeError ''scale.map is not a function'')
           else Inr None)
      | Some scale \<Rightarrow>
          (let v' = toLowerCase (js_string J v);
               idx = indexOf (map toLowerCase scale) v'
           in if idx \<ge> 0 then Inr (Some (nat idx)) else Inr None))"

text \<open>
  \<^verbatim>\<open>compareValue\<close>; the operator is \<^verbatim>\<open>c.op\<close>, which may be \<^verbatim>\<open>undefined\<close> and then reaches the
  \<^verbatim>\<open>default\<close> branch of the \<^verbatim>\<open>switch\<close> that applies.
\<close>

definition compareValue ::
  "('n::linorder) numeric \<Rightarrow> 'n ruleset \<Rightarrow> string \<Rightarrow> string option \<Rightarrow> 'n jsval \<Rightarrow> 'n jsval \<Rightarrow>
   js_error + bool" where
  "compareValue J rs field op lhs rhs =
     (case ordinalIndex J rs field lhs of
        Inl e \<Rightarrow> Inl e
      | Inr li' \<Rightarrow>
     (case ordinalIndex J rs field rhs of
        Inl e \<Rightarrow> Inl e
      | Inr ri' \<Rightarrow>
     Inr (case (li', ri') of
        (Some li, Some ri) \<Rightarrow>
          (if op = Some ''>='' then li \<ge> ri
           else if op = Some ''<='' then li \<le> ri
           else if op = Some ''>'' then li > ri
           else if op = Some ''<'' then li < ri
           else if op = Some ''='' then li = ri
           else if op = Some ''!='' then li \<noteq> ri
           else False)
      | _ \<Rightarrow>
          (case (lhs, rhs) of
             (Num a, Num b) \<Rightarrow>
               (if op = Some ''>='' then a \<ge> b
                else if op = Some ''<='' then a \<le> b
                else if op = Some ''>'' then a > b
                else if op = Some ''<'' then a < b
                else if op = Some ''='' then a = b
                else if op = Some ''!='' then a \<noteq> b
                else False)
           | _ \<Rightarrow>
               (let ls = toLowerCase (js_string J lhs);
                    rs' = toLowerCase (js_string J rhs)
                in if op = Some ''='' then ls = rs'
                   else if op = Some ''!='' then ls \<noteq> rs'
                   else False)))))"

section \<open>Rule evaluation\<close>

datatype 'n match_result =
    Matched
  | Unparsed_condition
  | Missing_field "string option"
  | Condition_failed "'n cond"

definition matched :: "'n match_result \<Rightarrow> bool" where
  "matched r = (r = Matched)"

text \<open>
  One pass of the loop of \<^verbatim>\<open>ruleMatches\<close> over the conditions. A condition with no
  \<^verbatim>\<open>field\<close> asks \<^verbatim>\<open>inputMap.has(undefined)\<close>, which is false. What \<^verbatim>\<open>compareValue\<close> throws
  leaves the loop and \<^verbatim>\<open>ruleMatches\<close>.
\<close>

fun conds_match ::
  "('n::linorder) numeric \<Rightarrow> 'n ruleset \<Rightarrow> 'n cond list \<Rightarrow> 'n fieldmap \<Rightarrow>
   js_error + 'n match_result" where
  "conds_match J rs [] m = Inr Matched"
| "conds_match J rs (c # cs) m =
     (if truthy (c_raw c) \<and> (\<not> truthy (c_field c) \<or> \<not> truthy (c_op c))
      then Inr Unparsed_condition
      else (case c_field c of
        None \<Rightarrow> Inr (Missing_field None)
      | Some field \<Rightarrow>
          (if \<not> map_has m field then Inr (Missing_field (Some field))
           else (case map_get m field of
             None \<Rightarrow> Inr (Missing_field (Some field))
           | Some lhs \<Rightarrow>
               (case compareValue J rs field (c_op c) lhs (c_value c) of
                  Inl e \<Rightarrow> Inl e
                | Inr holds \<Rightarrow>
                    (if holds then conds_match J rs cs m else Inr (Condition_failed c)))))))"

definition ruleMatches ::
  "('n::linorder) numeric \<Rightarrow> 'n ruleset \<Rightarrow> 'n rule \<Rightarrow> 'n fieldmap \<Rightarrow>
   js_error + 'n match_result" where
  "ruleMatches J rs rule m = conds_match J rs (rule_if rule) m"

section \<open>Decision\<close>

datatype verdict = NO | YES_STAR | YES_ADVISORY | YES

record 'n decision =
  d_verdict :: verdict
  d_judgement :: "string option"
  d_rule :: "'n rule option"
  d_triggered :: "'n rule list"
  d_triggeredHard :: "'n rule list"
  d_triggeredSoft :: "'n rule list"

text \<open>
  \<^verbatim>\<open>String(rule.level || ruleset.defaults?.level || "hard").toLowerCase()\<close>
\<close>

definition level_of :: "'n ruleset \<Rightarrow> 'n rule \<Rightarrow> string" where
  "level_of rs r =
     toLowerCase
       (if truthy (rule_level r) then the (rule_level r)
        else if truthy (defaults_level rs) then the (defaults_level rs)
        else ''hard'')"

text \<open>
  The loop of \<^verbatim>\<open>decide\<close> over the rules: the three lists \<^verbatim>\<open>triggered\<close>,
  \<^verbatim>\<open>triggeredHard\<close>, \<^verbatim>\<open>triggeredSoft\<close>, each extended by \<^verbatim>\<open>push\<close>. What \<^verbatim>\<open>ruleMatches\<close>
  throws leaves the loop and \<^verbatim>\<open>decide\<close>.
\<close>

fun collect ::
  "('n::linorder) numeric \<Rightarrow> 'n ruleset \<Rightarrow> 'n fieldmap \<Rightarrow> 'n rule list \<Rightarrow>
   'n rule list \<times> 'n rule list \<times> 'n rule list \<Rightarrow>
   js_error + ('n rule list \<times> 'n rule list \<times> 'n rule list)" where
  "collect J rs m [] acc = Inr acc"
| "collect J rs m (r # rest) (triggered, hard, soft) =
     (case ruleMatches J rs r m of
        Inl e \<Rightarrow> Inl e
      | Inr res \<Rightarrow>
          (if matched res
           then (if level_of rs r = ''soft''
                 then collect J rs m rest (triggered @ [r], hard, soft @ [r])
                 else collect J rs m rest (triggered @ [r], hard @ [r], soft))
           else collect J rs m rest (triggered, hard, soft)))"

text \<open>\<^verbatim>\<open>(r.then?.judgement || "").toLowerCase()\<close>\<close>

definition judgement_lc :: "'n rule \<Rightarrow> string" where
  "judgement_lc r =
     toLowerCase
       (case rule_then r of
          None \<Rightarrow> []
        | Some t \<Rightarrow> (if truthy (judgement t) then the (judgement t) else []))"

text \<open>
  \<^verbatim>\<open>decide\<close>. The second return reads \<^verbatim>\<open>hardOther.then.judgement\<close> with no \<^verbatim>\<open>?.\<close>:
  on a rule without a \<^verbatim>\<open>then\<close> member the property read throws a \<^verbatim>\<open>TypeError\<close>.
\<close>

definition decide ::
  "('n::linorder) numeric \<Rightarrow> 'n ruleset \<Rightarrow> 'n fieldmap \<Rightarrow> js_error + 'n decision" where
  "decide J rs m =
     (case collect J rs m (rules rs) ([], [], []) of
        Inl e \<Rightarrow> Inl e
      | Inr (triggered, triggeredHard, triggeredSoft) \<Rightarrow>
     (case find (\<lambda>r. judgement_lc r = ''infeasible'') triggeredHard of
        Some hardInfeasible \<Rightarrow>
          Inr \<lparr> d_verdict = NO, d_judgement = Some ''Infeasible'', d_rule = Some hardInfeasible,
                d_triggered = triggered, d_triggeredHard = triggeredHard,
                d_triggeredSoft = triggeredSoft \<rparr>
      | None \<Rightarrow>
         (case find (\<lambda>r. judgement_lc r \<noteq> ''infeasible'') triggeredHard of
            Some hardOther \<Rightarrow>
              (case rule_then hardOther of
                 None \<Rightarrow> Inl (TypeError ''Cannot read properties of undefined (reading judgement)'')
               | Some t \<Rightarrow>
                   Inr \<lparr> d_verdict = YES_STAR, d_judgement = judgement t, d_rule = Some hardOther,
                         d_triggered = triggered, d_triggeredHard = triggeredHard,
                         d_triggeredSoft = triggeredSoft \<rparr>)
          | None \<Rightarrow>
             (case triggeredSoft of
                primary # _ \<Rightarrow>
                  Inr \<lparr> d_verdict = YES_ADVISORY,
                        d_judgement =
                          (case rule_then primary of
                             None \<Rightarrow> Some ''Advisory flags present''
                           | Some t \<Rightarrow> (if truthy (judgement t) then judgement t
                                        else Some ''Advisory flags present'')),
                        d_rule = Some primary,
                        d_triggered = triggered, d_triggeredHard = triggeredHard,
                        d_triggeredSoft = triggeredSoft \<rparr>
              | [] \<Rightarrow>
                  Inr \<lparr> d_verdict = YES, d_judgement = Some ''No hard infeasibility triggered'',
                        d_rule = None,
                        d_triggered = triggered, d_triggeredHard = triggeredHard,
                        d_triggeredSoft = triggeredSoft \<rparr>))))"

text \<open>
  A condition's field is absent from the field map when the condition names no field
  or names one that is not a key of the map.
\<close>

definition field_absent :: "'n fieldmap \<Rightarrow> 'n cond \<Rightarrow> bool" where
  "field_absent m c = (case c_field c of None \<Rightarrow> True | Some f \<Rightarrow> f \<notin> fst ` set m)"

text \<open>
  The read of the scale of a field does not reach \<^verbatim>\<open>Object.prototype\<close>: the ruleset has a
  scale of that name, or \<^verbatim>\<open>Object.prototype\<close> has no member of that name.
\<close>

definition scale_read_own :: "'n ruleset \<Rightarrow> string \<Rightarrow> bool" where
  "scale_read_own rs f = (f \<in> fst ` set (ordinal_scales rs) \<or> f \<notin> set object_prototype_names)"

text \<open>
  Both values resolve to a position on the scale configured for the field; a value is a
  JavaScript number.
\<close>

definition both_on_scale :: "'n numeric \<Rightarrow> 'n ruleset \<Rightarrow> string \<Rightarrow> 'n jsval \<Rightarrow> 'n jsval \<Rightarrow> bool" where
  "both_on_scale J rs f lhs rhs =
     (case (ordinalIndex J rs f lhs, ordinalIndex J rs f rhs) of
        (Inr (Some i), Inr (Some j)) \<Rightarrow> True
      | _ \<Rightarrow> False)"

fun is_Num :: "'n jsval \<Rightarrow> bool" where
  "is_Num (Num n) = True"
| "is_Num _ = False"

section \<open>Alias resolver\<close>

text \<open>
  The table \<^verbatim>\<open>aliasToCanonical\<close> is built by a sequence of \<^verbatim>\<open>set\<close> calls, in the order
  of \<^verbatim>\<open>Object.entries(aliases)\<close>: for each canonical name its own lower-cased form,
  then each of its synonyms, lower-cased. A later \<^verbatim>\<open>set\<close> of the same key replaces the
  earlier value.
\<close>

fun alias_sets :: "(string \<times> string list) list \<Rightarrow> (string \<times> string) list" where
  "alias_sets [] = []"
| "alias_sets ((canon, alist) # rest) =
     (toLowerCase canon, canon) # map (\<lambda>a. (toLowerCase a, canon)) alist @ alias_sets rest"

definition aliasToCanonical :: "'n ruleset \<Rightarrow> (string \<times> string) list" where
  "aliasToCanonical rs = fold (\<lambda>(k, v) t. AList.update k v t) (alias_sets (aliases rs)) []"

text \<open>\<^verbatim>\<open>aliasToCanonical.get(String(key).toLowerCase()) || key\<close>\<close>

definition canonKey :: "'n ruleset \<Rightarrow> string \<Rightarrow> string" where
  "canonKey rs key =
     (case map_of (aliasToCanonical rs) (toLowerCase key) of
        None \<Rightarrow> key
      | Some canon \<Rightarrow> if canon \<noteq> [] then canon else key)"

section \<open>Legacy line dialect\<close>

abbreviation LF :: char where "LF \<equiv> CHR 0x0A"
abbreviation CR :: char where "CR \<equiv> CHR 0x0D"

text \<open>\<^verbatim>\<open>text.split(/\r?\n/)\<close>\<close>

fun split_lines :: "string \<Rightarrow> string list" where
  "split_lines [] = [[]]"
| "split_lines [c] = (if c = LF then [[], []] else [[c]])"
| "split_lines (c # d # cs) =
     (if c = LF then [] # split_lines (d # cs)
      else if c = CR \<and> d = LF then [] # split_lines cs
      else (case split_lines (d # cs) of
              l # ls \<Rightarrow> (c # l) # ls
            | [] \<Rightarrow> [[c]]))"

text \<open>\<^verbatim>\<open>.map(l => l.trim()).filter(Boolean)\<close>\<close>

definition input_lines :: "string \<Rightarrow> string list" where
  "input_lines text = filter (\<lambda>l. l \<noteq> []) (map trim (split_lines text))"

definition is_sep :: "char \<Rightarrow> bool" where
  "is_sep c = (c = CHR '':'' \<or> c = CHR ''='')"

text \<open>The characters \<^verbatim>\<open>.\<close> does not match.\<close>

definition is_line_terminator :: "char \<Rightarrow> bool" where
  "is_line_terminator c = (c = LF \<or> c = CR)"

text \<open>
  \<^verbatim>\<open>line.match(/^([^:=]+)\s*[:=]\s*(.+)$/)\<close>, giving the two groups. The first group is
  the text before the first separator and must not be empty. After the separator,
  \<^verbatim>\<open>\s*\<close> takes the leading white space and the second group the rest, which must not
  hold a line terminator; when nothing but white space follows the separator,
  backtracking leaves the last white-space character to the second group.
\<close>

definition match_line :: "string \<Rightarrow> (string \<times> string) option" where
  "match_line line =
     (let g1 = takeWhile (\<lambda>c. \<not> is_sep c) line in
      if g1 = [] then None
      else (case dropWhile (\<lambda>c. \<not> is_sep c) line of
        [] \<Rightarrow> None
      | _ # r \<Rightarrow>
          (let g2 = dropWhile is_space r in
           if g2 \<noteq> [] then
             (if list_ex is_line_terminator g2 then None else Some (g1, g2))
           else if r \<noteq> [] \<and> \<not> is_line_terminator (last r) then Some (g1, [last r])
           else None)))"

text \<open>\<^verbatim>\<open>/^-?\d+(\.\d+)?$/.test(val)\<close>\<close>

definition is_number_text :: "string \<Rightarrow> bool" where
  "is_number_text s =
     (let t = (case s of c # cs \<Rightarrow> if c = CHR ''-'' then cs else s | [] \<Rightarrow> s);
          ip = takeWhile is_digit t;
          r = dropWhile is_digit t
      in ip \<noteq> [] \<and>
         (case r of
            [] \<Rightarrow> True
          | c # fp \<Rightarrow> c = CHR ''.'' \<and> fp \<noteq> [] \<and> list_all is_digit fp))"

text \<open>\<^verbatim>\<open>val.replace(/`/g, "")\<close>\<close>

definition strip_backticks :: "string \<Rightarrow> string" where
  "strip_backticks s = filter (\<lambda>c. c \<noteq> CHR 0x60) s"

text \<open>The body of the loop over the lines: \<^verbatim>\<open>continue\<close> on a line that does not match.\<close>

definition parse_line :: "'n numeric \<Rightarrow> 'n ruleset \<Rightarrow> string \<Rightarrow> 'n fieldmap \<Rightarrow> 'n fieldmap" where
  "parse_line J rs line m =
     (case match_line line of
        None \<Rightarrow> m
      | Some (g1, g2) \<Rightarrow>
          (let key = trim g1;
               val = strip_backticks (trim g2);
               canon = canonKey rs key
           in if is_number_text val
              then map_set canon
                     (Num (if CHR ''.'' \<in> set val then parse_float J val else parse_int J val)) m
              else map_set canon (Str (toLowerCase val)) m))"

definition parseKeyValueLines :: "'n numeric \<Rightarrow> string \<Rightarrow> 'n ruleset \<Rightarrow> 'n fieldmap" where
  "parseKeyValueLines J text rs = fold (parse_line J rs) (input_lines text) []"

section \<open>Dialect selection\<close>

text \<open>\<^verbatim>\<open>/\b(CHECK|EVAL)\b/i\<close>: the keyword \<open>kw\<close> stands at the head of \<open>s\<close> and a word
  boundary follows it.\<close>

definition kw_at :: "string \<Rightarrow> string \<Rightarrow> bool" where
  "kw_at kw s =
     (toLowerCase (take (length kw) s) = kw \<and>
      (case drop (length kw) s of [] \<Rightarrow> True | c # _ \<Rightarrow> \<not> is_word c))"

text \<open>The search for the keyword; \<open>pw\<close> says whether the character before is a word
  character.\<close>

fun has_keyword :: "bool \<Rightarrow> string \<Rightarrow> bool" where
  "has_keyword pw [] = False"
| "has_keyword pw (c # cs) =
     ((\<not> pw \<and> (kw_at ''check'' (c # cs) \<or> kw_at ''eval'' (c # cs))) \<or> has_keyword (is_word c) cs)"

text \<open>\<^verbatim>\<open>/#\w+/\<close>\<close>

fun has_symbol :: "string \<Rightarrow> bool" where
  "has_symbol [] = False"
| "has_symbol [c] = False"
| "has_symbol (c # d # cs) = ((c = CHR ''#'' \<and> is_word d) \<or> has_symbol (d # cs))"

text \<open>
  \<^verbatim>\<open>/[A-Za-z_]\w*\.[A-Za-z_]\w*/\<close>; \<open>ok\<close> says whether the run of word characters that
  ends just before holds a character of \<^verbatim>\<open>[A-Za-z_]\<close>.
\<close>

fun has_dotted :: "bool \<Rightarrow> string \<Rightarrow> bool" where
  "has_dotted ok [] = False"
| "has_dotted ok (c # cs) =
     ((ok \<and> c = CHR ''.'' \<and> (case cs of d # _ \<Rightarrow> is_alpha d | [] \<Rightarrow> False))
      \<or> has_dotted (is_alpha c \<or> (ok \<and> is_word c)) cs)"

definition isLikelySSELang :: "string \<Rightarrow> bool" where
  "isLikelySSELang text =
     (let t = trim text in
      if t = [] then False
      else if CHR '';'' \<in> set t then True
      else if has_keyword False t then True
      else if has_symbol t then True
      else if has_dotted False t then True
      else False)"

text \<open>
  The declarations of the alias object, read entry by entry. An entry declares a key when
  the key is its canonical name, lower-cased, or one of its synonyms, lower-cased. The
  canonical name last declared for a key is that of the last entry that declares it. No
  canonical name is declared again when no later entry declares the lower-cased
  canonical name of an entry under another canonical name.
\<close>

definition declares :: "string \<times> string list \<Rightarrow> string \<Rightarrow> bool" where
  "declares e x = (x = toLowerCase (fst e) \<or> x \<in> set (map toLowerCase (snd e)))"

fun last_declared :: "(string \<times> string list) list \<Rightarrow> string \<Rightarrow> string option" where
  "last_declared [] x = None"
| "last_declared (e # rest) x =
     (case last_declared rest x of
        Some c \<Rightarrow> Some c
      | None \<Rightarrow> if declares e x then Some (fst e) else None)"

fun no_redeclaration :: "(string \<times> string list) list \<Rightarrow> bool" where
  "no_redeclaration [] = True"
| "no_redeclaration (e # rest) =
     (list_all (\<lambda>e'. declares e' (toLowerCase (fst e)) \<longrightarrow> fst e' = fst e) rest \<and>
      no_redeclaration rest)"

text \<open>
  What the selection looks for, read off the text itself: a semicolon; a query keyword,
  that is \<open>CHECK\<close> or \<open>EVAL\<close> in any mix of cases standing as a whole word; a marker \<open>#\<close>
  leading a token, that is followed by a word character; a dotted identifier pattern, an
  identifier start, then word characters, a dot and an identifier start.
\<close>

definition contains_keyword :: "string \<Rightarrow> bool" where
  "contains_keyword t =
     (\<exists>pre w post. t = pre @ w @ post \<and>
        (toLowerCase w = ''check'' \<or> toLowerCase w = ''eval'') \<and>
        (pre = [] \<or> \<not> is_word (last pre)) \<and> (post = [] \<or> \<not> is_word (hd post)))"

definition contains_symbol :: "string \<Rightarrow> bool" where
  "contains_symbol t = (\<exists>pre c post. t = pre @ CHR ''#'' # c # post \<and> is_word c)"

definition contains_dotted :: "string \<Rightarrow> bool" where
  "contains_dotted t =
     (\<exists>pre a ws b post. t = pre @ a # ws @ CHR ''.'' # b # post \<and>
        is_alpha a \<and> list_all is_word ws \<and> is_alpha b)"

definition selects_dsl :: "string \<Rightarrow> bool" where
  "selects_dsl t =
     (CHR '';'' \<in> set t \<or> contains_keyword t \<or> contains_symbol t \<or> contains_dotted t)"

text \<open>
  Two auxiliary readings: the rest of a dotted identifier pattern whose identifier start
  has been seen, and the four searches of \<^const>\<open>isLikelySSELang\<close> taken together.
\<close>

definition dotted_tail :: "string \<Rightarrow> bool" where
  "dotted_tail s = (\<exists>ws b post. s = ws @ CHR ''.'' # b # post \<and> list_all is_word ws \<and> is_alpha b)"

definition scan :: "string \<Rightarrow> bool" where
  "scan t = (CHR '';'' \<in> set t \<or> has_keyword False t \<or> has_symbol t \<or> has_dotted False t)"

section \<open>Derived fields\<close>

definition RATING_SCALE :: "string list" where
  "RATING_SCALE =
     [''excellent'', ''good'', ''fair'', ''moderate'', ''poor'', ''major'', ''critical'']"

text \<open>\<^verbatim>\<open>RATING_SCALE.indexOf(String(level || "").toLowerCase().trim())\<close>\<close>

definition ratingRank :: "string \<Rightarrow> int" where
  "ratingRank level = indexOf RATING_SCALE (trim (toLowerCase level))"

record 'n derivation =
  der_name :: string
  der_value :: "'n jsval"
  der_from :: "(string \<times> string) list option"

text \<open>\<^verbatim>\<open>key.toLowerCase().startsWith("rating.")\<close>\<close>

definition is_rating_key :: "string \<Rightarrow> bool" where
  "is_rating_key key = (take 7 (toLowerCase key) = ''rating.'')"

text \<open>\<^verbatim>\<open>String(v).toLowerCase().trim()\<close>\<close>

definition rating_level :: "'n numeric \<Rightarrow> 'n jsval \<Rightarrow> string" where
  "rating_level J v = trim (toLowerCase (js_string J v))"

text \<open>
  The value of the warning derivation:
  \<^verbatim>\<open>`Ignored Rating field '${key}' with unrecognized level '${level}'`\<close>
\<close>

definition rating_warning :: "string \<Rightarrow> string \<Rightarrow> 'n derivation" where
  "rating_warning key level =
     \<lparr> der_name = ''RatingParseWarning'',
       der_value = Str (''Ignored Rating field '' @ [CHR 0x27] @ key @ [CHR 0x27] @
                        '' with unrecognized level '' @ [CHR 0x27] @ level @ [CHR 0x27]),
       der_from = None \<rparr>"

text \<open>
  The loop of \<^verbatim>\<open>deriveInput\<close> over \<^verbatim>\<open>map.entries()\<close>, on the state
  (\<^verbatim>\<open>derivations\<close>, \<^verbatim>\<open>counted\<close>, \<^verbatim>\<open>totalRatings\<close>).
\<close>

fun derive_loop ::
  "'n numeric \<Rightarrow> 'n fieldmap \<Rightarrow> 'n derivation list \<times> (string \<times> string) list \<times> nat \<Rightarrow>
   'n derivation list \<times> (string \<times> string) list \<times> nat" where
  "derive_loop J [] st = st"
| "derive_loop J ((key, v) # es) (derivations, counted, totalRatings) =
     (if \<not> is_rating_key key then derive_loop J es (derivations, counted, totalRatings)
      else
        (let level = rating_level J v; r = ratingRank level in
         if r = -1
         then derive_loop J es
                (derivations @ [rating_warning key level], counted, totalRatings + 1)
         else if r \<ge> ratingRank ''moderate''
         then derive_loop J es (derivations, counted @ [(key, level)], totalRatings + 1)
         else derive_loop J es (derivations, counted, totalRatings + 1)))"

text \<open>
  \<^verbatim>\<open>aliasToCanonical.get("moderateorworsecount") ||
   aliasToCanonical.get("count of attributes rated moderate or worse") ||
   "ModerateOrWorseCount"\<close>
\<close>

definition derivedKey :: "'n ruleset \<Rightarrow> string" where
  "derivedKey rs =
     (let t = aliasToCanonical rs in
      if truthy (map_of t ''moderateorworsecount'')
      then the (map_of t ''moderateorworsecount'')
      else if truthy (map_of t ''count of attributes rated moderate or worse'')
      then the (map_of t ''count of attributes rated moderate or worse'')
      else ''ModerateOrWorseCount'')"

definition deriveInput ::
  "'n numeric \<Rightarrow> 'n fieldmap \<Rightarrow> 'n ruleset \<Rightarrow> 'n fieldmap \<times> 'n derivation list" where
  "deriveInput J m rs =
     (let (derivations, counted, totalRatings) = derive_loop J m ([], [], 0) in
      if totalRatings > 0 then
        (let count = length counted;
             anyCritical = list_ex (\<lambda>x. snd x = ''critical'') counted
         in (map_set (derivedKey rs) (Num (of_count J count)) m,
             derivations @
             [\<lparr> der_name = ''ModerateOrWorseCount'', der_value = Num (of_count J count),
                der_from = Some counted \<rparr>,
              \<lparr> der_name = ''AnyCriticalFlag'', der_value = Bool anyCritical,
                der_from = None \<rparr>]))
      else (m, derivations))"

text \<open>
  The rating fields of a field map, the ones among them that count as moderate or worse
  (their level stands at or after \<open>moderate\<close> on the rating scale), and the ones whose
  level is not on the scale.
\<close>

definition rating_fields :: "'n fieldmap \<Rightarrow> 'n fieldmap" where
  "rating_fields m = filter (\<lambda>e. is_rating_key (fst e)) m"

definition moderate_or_worse :: "'n numeric \<Rightarrow> 'n fieldmap \<Rightarrow> (string \<times> string) list" where
  "moderate_or_worse J m =
     map (\<lambda>e. (fst e, rating_level J (snd e)))
       (filter (\<lambda>e. ratingRank (rating_level J (snd e)) \<ge> 3) (rating_fields m))"

definition unrecognized :: "'n numeric \<Rightarrow> 'n fieldmap \<Rightarrow> 'n fieldmap" where
  "unrecognized J m =
     filter (\<lambda>e. ratingRank (rating_level J (snd e)) = -1) (rating_fields m)"

section \<open>DSL dialect: tokenizer\<close>

datatype tok_type =
  COLON | EQUAL | SEMI | DOT | STRING | SYMBOL | NUMBER | IDENT | KW_CHECK | KW_EVAL | EOF

fun type_name :: "tok_type \<Rightarrow> string" where
  "type_name COLON = ''COLON''"
| "type_name EQUAL = ''EQUAL''"
| "type_name SEMI = ''SEMI''"
| "type_name DOT = ''DOT''"
| "type_name STRING = ''STRING''"
| "type_name SYMBOL = ''SYMBOL''"
| "type_name NUMBER = ''NUMBER''"
| "type_name IDENT = ''IDENT''"
| "type_name KW_CHECK = ''KW_CHECK''"
| "type_name KW_EVAL = ''KW_EVAL''"
| "type_name EOF = ''EOF''"

text \<open>A token \<^verbatim>\<open>{ type, value, loc: { line, col, index } }\<close>; the value of the end token is
  \<^verbatim>\<open>null\<close>, which nothing reads, and is the empty string here.\<close>

record token =
  tok_type :: tok_type
  tok_value :: string
  tok_line :: nat
  tok_col :: nat
  tok_index :: nat

definition mk_token :: "tok_type \<Rightarrow> string \<Rightarrow> nat \<Rightarrow> nat \<Rightarrow> nat \<Rightarrow> token" where
  "mk_token ty v line col i =
     \<lparr> tok_type = ty, tok_value = v, tok_line = line, tok_col = col, tok_index = i \<rparr>"

text \<open>\<^verbatim>\<open>src[i]\<close>, which is \<^verbatim>\<open>undefined\<close> past the end; \<^verbatim>\<open>src.slice(i, j)\<close>.\<close>

definition char_at :: "string \<Rightarrow> nat \<Rightarrow> char option" where
  "char_at src i = (if i < length src then Some (src ! i) else None)"

definition slice :: "string \<Rightarrow> nat \<Rightarrow> nat \<Rightarrow> string" where
  "slice src i j = take (j - i) (drop i src)"

text \<open>
  The three character tests of the tokenizer are regular expressions applied with
  \<^verbatim>\<open>test\<close>, which converts its argument to a string: on \<^verbatim>\<open>undefined\<close> the text
  \<open>undefined\<close> is tested, which holds a letter and no digit.
\<close>

definition is_alnum :: "char \<Rightarrow> bool" where
  "is_alnum c = (is_word c \<or> c = CHR ''-'')"

fun isAlnum :: "char option \<Rightarrow> bool" where
  "isAlnum None = True"
| "isAlnum (Some c) = is_alnum c"

fun isDigit :: "char option \<Rightarrow> bool" where
  "isDigit None = False"
| "isDigit (Some c) = is_digit c"

text \<open>
  \<^verbatim>\<open>err(msg)\<close>: the error with the message, the line and column, and the context
  \<^verbatim>\<open>src.slice(Math.max(0, i - 20), Math.min(src.length, i + 20))\<close>.
\<close>

definition quoted :: "string \<Rightarrow> string" where
  "quoted s = [CHR 0x27] @ s @ [CHR 0x27]"

definition err :: "string \<Rightarrow> nat \<Rightarrow> nat \<Rightarrow> nat \<Rightarrow> string \<Rightarrow> js_error" where
  "err src i line col msg = LexError msg line col (slice src (i - 20) (min (length src) (i + 20)))"

text \<open>\<^verbatim>\<open>while (i < src.length && P(src[i])) i++\<close>, giving the index it stops at.\<close>

function scan_while :: "(char \<Rightarrow> bool) \<Rightarrow> string \<Rightarrow> nat \<Rightarrow> nat" where
  "scan_while P src i = (if i < length src \<and> P (src ! i) then scan_while P src (Suc i) else i)"
  by pat_completeness auto
termination
  by (relation "measure (\<lambda>(P, src, i). length src - i)") auto

declare scan_while.simps [simp del]

text \<open>
  The loop over the body of a string literal, from the index after the opening quote:
  the index and the column it stops at and the text read, or the error of a raw newline.
\<close>

function scan_string ::
  "string \<Rightarrow> nat \<Rightarrow> nat \<Rightarrow> nat \<Rightarrow> string \<Rightarrow> js_error + (nat \<times> nat \<times> string)" where
  "scan_string src i line col s =
     (if i < length src \<and> src ! i \<noteq> CHR 0x22 then
        (if src ! i = LF then Inl (err src i line col ''Unterminated string literal'')
         else if src ! i = CHR 0x5C \<and> i + 1 < length src \<and>
                 (src ! (i + 1) = CHR 0x22 \<or> src ! (i + 1) = CHR 0x5C)
         then scan_string src (i + 2) line (col + 2) (s @ [src ! (i + 1)])
         else scan_string src (i + 1) line (col + 1) (s @ [src ! i]))
      else Inr (i, col, s))"
  by pat_completeness auto
termination
  by (relation "measure (\<lambda>(src, i, line, col, s). length src - i)") auto

declare scan_string.simps [simp del]

text \<open>\<^verbatim>\<open>name.toUpperCase()\<close> on an identifier, whose characters are ASCII.\<close>

definition upper_char :: "char \<Rightarrow> char" where
  "upper_char c = (let n = code_unit c in if 97 \<le> n \<and> n \<le> 122 then char_of (n - 32) else c)"

definition toUpperCase :: "string \<Rightarrow> string" where
  "toUpperCase s = map upper_char s"

text \<open>
  One pass of the body of the \<^verbatim>\<open>while (i < src.length)\<close> loop of \<^verbatim>\<open>tokenizeSSE\<close>, at an
  index inside the text: the token pushed, if any, and the new index, line and column,
  or the error thrown.
\<close>

definition lex_step ::
  "string \<Rightarrow> nat \<Rightarrow> nat \<Rightarrow> nat \<Rightarrow> js_error + (token option \<times> nat \<times> nat \<times> nat)" where
  "lex_step src i line col =
     (let c = src ! i in
      if c = CHR '' '' \<or> c = CHR 0x09 \<or> c = CR then Inr (None, i + 1, line, col + 1)
      else if c = LF then Inr (None, i + 1, line + 1, 1)
      else if c = CHR ''/'' \<and> char_at src (i + 1) = Some (CHR ''/'') then
        (let j = scan_while (\<lambda>x. x \<noteq> LF) src (i + 2)
         in Inr (None, j, line, col + 2 + (j - (i + 2))))
      else if c = CHR '':'' then Inr (Some (mk_token COLON '':'' line col i), i + 1, line, col + 1)
      else if c = CHR ''='' then Inr (Some (mk_token EQUAL ''='' line col i), i + 1, line, col + 1)
      else if c = CHR '';'' then Inr (Some (mk_token SEMI '';'' line col i), i + 1, line, col + 1)
      else if c = CHR ''.'' then Inr (Some (mk_token DOT ''.'' line col i), i + 1, line, col + 1)
      else if c = CHR 0x22 then
        (case scan_string src (i + 1) line (col + 1) [] of
           Inl e \<Rightarrow> Inl e
         | Inr (j, col', s) \<Rightarrow>
             if char_at src j \<noteq> Some (CHR 0x22)
             then Inl (err src j line col' ''Unterminated string literal'')
             else Inr (Some (mk_token STRING s line col i), j + 1, line, col' + 1))
      else if c = CHR ''#'' then
        (if char_at src (i + 1) = Some (CHR ''!'')
         then Inl (err src i line col (''Directive syntax '' @ quoted ''#!'' @ '' not supported in v0.1.1 input''))
         else if \<not> isAlnum (char_at src (i + 1))
         then Inl (err src (i + 1) line (col + 1) (''Expected symbol after '' @ quoted ''#''))
         else
           (let j = scan_while is_alnum src (i + 1)
            in Inr (Some (mk_token SYMBOL (slice src (i + 1) j) line col i),
                    j, line, col + 1 + (j - (i + 1)))))
      else if c = CHR ''-'' \<or> is_digit c then
        (let j0 = (if c = CHR ''-'' then i + 1 else i) in
         if \<not> isDigit (char_at src j0) then Inl (err src i line col (''Unexpected '' @ quoted ''-''))
         else
           (let j1 = scan_while is_digit src j0;
                j = (if char_at src j1 = Some (CHR ''.'') \<and> isDigit (char_at src (j1 + 1))
                     then scan_while is_digit src (j1 + 1) else j1)
            in Inr (Some (mk_token NUMBER (slice src i j) line col i), j, line, col + (j - i))))
      else if is_alpha c then
        (let j = scan_while is_alnum src i;
             name = slice src i j;
             upper = toUpperCase name
         in Inr (Some (if upper = ''CHECK'' then mk_token KW_CHECK upper line col i
                       else if upper = ''EVAL'' then mk_token KW_EVAL upper line col i
                       else mk_token IDENT name line col i),
                 j, line, col + (j - i)))
      else Inl (err src i line col (''Unexpected character '' @ quoted [c])))"

text \<open>Every pass of the loop moves the index forward.\<close>

lemma scan_while_ge: "i \<le> scan_while P src i"
proof (induction P src i rule: scan_while.induct)
  case (1 P src i)
  show ?case
  proof (cases "i < length src \<and> P (src ! i)")
    case True
    with 1 have "Suc i \<le> scan_while P src (Suc i)" by simp
    moreover from True have "scan_while P src i = scan_while P src (Suc i)"
      by (subst scan_while.simps) simp
    ultimately show ?thesis by simp
  next
    case False
    then have "scan_while P src i = i"
      by (subst scan_while.simps) auto
    then show ?thesis by simp
  qed
qed

lemma scan_while_gt:
  assumes "i < length src" and "P (src ! i)"
  shows "i < scan_while P src i"
proof -
  from assms have "scan_while P src i = scan_while P src (Suc i)"
    by (subst scan_while.simps) simp
  with scan_while_ge [of "Suc i" P src] show ?thesis by simp
qed

lemma scan_string_ge: "scan_string src i line col s = Inr (j, col', s') \<Longrightarrow> i \<le> j"
proof (induction src i line col s rule: scan_string.induct)
  case (1 src i line col s)
  show ?case
  proof (cases "i < length src \<and> src ! i \<noteq> CHR 0x22")
    case False
    with "1.prems" have "j = i"
      by (subst (asm) scan_string.simps) auto
    then show ?thesis by simp
  next
    case True
    note inside = this
    show ?thesis
    proof (cases "src ! i = LF")
      case True
      with inside "1.prems" show ?thesis
        by (subst (asm) scan_string.simps) simp
    next
      case False
      note nl = this
      show ?thesis
      proof (cases "src ! i = CHR 0x5C \<and> i + 1 < length src \<and>
                 (src ! (i + 1) = CHR 0x22 \<or> src ! (i + 1) = CHR 0x5C)")
        case True
        with inside nl "1.prems"
        have "scan_string src (i + 2) line (col + 2) (s @ [src ! (i + 1)]) = Inr (j, col', s')"
          by (subst (asm) scan_string.simps) simp
        with "1.IH"(1) [OF inside nl True] show ?thesis by simp
      next
        case False
        with inside nl "1.prems"
        have "scan_string src (i + 1) line (col + 1) (s @ [src ! i]) = Inr (j, col', s')"
          by (subst (asm) scan_string.simps) auto
        with "1.IH"(2) [OF inside nl False] show ?thesis by simp
      qed
    qed
  qed
qed

lemma lex_step_progress:
  assumes "i < length src" and "lex_step src i line col = Inr (tok, i', line', col')"
  shows "i < i'"
proof -
  have alpha: "is_alpha (src ! i) \<Longrightarrow> i < scan_while is_alnum src i"
    using assms(1) by (intro scan_while_gt) (simp_all add: is_alnum_def is_word_def)
  have digit: "is_digit (src ! i) \<Longrightarrow> i < scan_while is_digit src i"
    using assms(1) by (intro scan_while_gt) simp_all
  have digits: "i < scan_while is_digit src (Suc i)"
    using scan_while_ge [of "Suc i" is_digit src] by simp
  have frac: "j \<le> scan_while is_digit src (Suc j)" for j
    using scan_while_ge [of "Suc j" is_digit src] by simp
  have comment: "i < scan_while (\<lambda>x. x \<noteq> LF) src (Suc (Suc i))"
    using scan_while_ge [of "Suc (Suc i)" "\<lambda>x. x \<noteq> LF" src] by simp
  have symbol: "i < scan_while is_alnum src (Suc i)"
    using scan_while_ge [of "Suc i" is_alnum src] by simp
  have string: "scan_string src (Suc i) line (Suc col) [] = Inr (j, c, s) \<Longrightarrow> i < Suc j" for j c s
    using scan_string_ge [of src "Suc i" line "Suc col" "[]" j c s] by simp
  from assms(2) show ?thesis
    unfolding lex_step_def Let_def
    using alpha digit digits frac [of "scan_while is_digit src i"]
      frac [of "scan_while is_digit src (Suc i)"] comment symbol string
    by (auto split: if_splits sum.splits prod.splits simp: less_Suc_eq_le
        intro: less_le_trans le_trans)
qed

text \<open>\<^verbatim>\<open>tokenizeSSE\<close>: the loop, and the end token pushed after it.\<close>

function tokenize_loop ::
  "string \<Rightarrow> nat \<Rightarrow> nat \<Rightarrow> nat \<Rightarrow> token list \<Rightarrow> js_error + token list" where
  "tokenize_loop src i line col tokens =
     (if i < length src then
        (case lex_step src i line col of
           Inl e \<Rightarrow> Inl e
         | Inr (tok, i', line', col') \<Rightarrow>
             tokenize_loop src i' line' col'
               (case tok of None \<Rightarrow> tokens | Some t \<Rightarrow> tokens @ [t]))
      else Inr (tokens @ [mk_token EOF [] line col i]))"
  by pat_completeness auto
termination
proof (relation "measure (\<lambda>(src, i, line, col, tokens). length src - i)", goal_cases)
  case 1
  show ?case by simp
next
  case (2 src i line col tokens r tok rest i' rest' line' col')
  then have "lex_step src i line col = Inr (tok, i', line', col')" by simp
  from lex_step_progress [OF 2(1) this] 2(1) show ?case by simp
qed

declare tokenize_loop.simps [simp del]

definition tokenizeSSE :: "string \<Rightarrow> js_error + token list" where
  "tokenizeSSE text = tokenize_loop text 0 1 1 []"

section \<open>DSL dialect: parser\<close>

text \<open>
  The parser reads \<^verbatim>\<open>toks[k]\<close>; here the tokens not yet consumed are a list, \<^verbatim>\<open>peek()\<close> is
  its head and \<^verbatim>\<open>next()\<close> takes the head off. Past the last token \<^verbatim>\<open>toks[k]\<close> is
  \<^verbatim>\<open>undefined\<close> and the read of its \<^verbatim>\<open>type\<close> throws.
\<close>

definition past_end :: js_error where
  "past_end = TypeError ''Cannot read properties of undefined (reading type)''"

definition unexpected :: "string \<Rightarrow> token \<Rightarrow> js_error" where
  "unexpected msg t = ParseError msg (tok_line t) (tok_col t)"

definition expect :: "tok_type \<Rightarrow> token list \<Rightarrow> js_error + (token \<times> token list)" where
  "expect ty toks =
     (case toks of
        [] \<Rightarrow> Inl past_end
      | t # rest \<Rightarrow>
          if tok_type t \<noteq> ty
          then Inl (unexpected (''expected '' @ type_name ty @ '' but got '' @ type_name (tok_type t)) t)
          else Inr (t, rest))"

text \<open>\<^verbatim>\<open>parseEnumPath\<close>; the call \<^verbatim>\<open>expect("IDENT")\<close> is written out.\<close>

fun parseEnumPath :: "string list \<Rightarrow> token list \<Rightarrow> js_error + (string list \<times> token list)" where
  "parseEnumPath parts [] = Inl past_end"
| "parseEnumPath parts (t # rest) =
     (if tok_type t = DOT then
        (case rest of
           [] \<Rightarrow> Inl past_end
         | u # rest' \<Rightarrow>
             if tok_type u \<noteq> IDENT
             then Inl (unexpected
                        (''expected '' @ type_name IDENT @ '' but got '' @ type_name (tok_type u)) u)
             else parseEnumPath (parts @ [tok_value u]) rest')
      else Inr (parts, t # rest))"

text \<open>
  \<^verbatim>\<open>parseValue\<close>. The text of a number token matches \<^verbatim>\<open>-?\d+(\.\d+)?\<close>, so the parsed
  number is never NaN and the \<^verbatim>\<open>Invalid number\<close> error is not reached.
\<close>

definition parseValue :: "'n numeric \<Rightarrow> token list \<Rightarrow> js_error + ('n jsval \<times> token list)" where
  "parseValue J toks =
     (case toks of
        [] \<Rightarrow> Inl past_end
      | t # rest \<Rightarrow>
          if tok_type t = NUMBER then
            Inr (Num (if CHR ''.'' \<in> set (tok_value t) then parse_float J (tok_value t)
                      else parse_int J (tok_value t)), rest)
          else if tok_type t = STRING then Inr (Str (tok_value t), rest)
          else if tok_type t = SYMBOL then Inr (Str (toLowerCase (tok_value t)), rest)
          else if tok_type t = IDENT then
            (case parseEnumPath [tok_value t] rest of
               Inl e \<Rightarrow> Inl e
             | Inr (parts, rest') \<Rightarrow> Inr (Str (toLowerCase (last parts)), rest'))
          else Inl (unexpected ''expected value'' t))"

text \<open>\<^verbatim>\<open>(typeof val === "string") ? val.toLowerCase().replace(/`/g, "") : val\<close>\<close>

fun normVal :: "'n jsval \<Rightarrow> 'n jsval" where
  "normVal (Str s) = Str (strip_backticks (toLowerCase s))"
| "normVal v = v"

definition parseAssign ::
  "'n numeric \<Rightarrow> 'n ruleset \<Rightarrow> token list \<Rightarrow> 'n fieldmap \<Rightarrow> js_error + ('n fieldmap \<times> token list)" where
  "parseAssign J rs toks m =
     (case expect IDENT toks of
        Inl e \<Rightarrow> Inl e
      | Inr (keyTok, r1) \<Rightarrow>
          (case r1 of
             [] \<Rightarrow> Inl past_end
           | opTok # r2 \<Rightarrow>
               if tok_type opTok \<noteq> COLON \<and> tok_type opTok \<noteq> EQUAL
               then Inl (unexpected (''expected '' @ quoted '':'' @ '' or '' @ quoted ''='') opTok)
               else
                 (case parseValue J r2 of
                    Inl e \<Rightarrow> Inl e
                  | Inr (val, r3) \<Rightarrow>
                      (case expect SEMI r3 of
                         Inl e \<Rightarrow> Inl e
                       | Inr (semi, r4) \<Rightarrow>
                           Inr (map_set (canonKey rs (tok_value keyTok)) (normVal val) m, r4)))))"

definition parseQuery :: "token list \<Rightarrow> js_error + token list" where
  "parseQuery toks =
     (case toks of
        [] \<Rightarrow> Inl past_end
      | t # rest \<Rightarrow>
          if tok_type t \<noteq> KW_CHECK \<and> tok_type t \<noteq> KW_EVAL
          then Inl (unexpected ''expected CHECK/EVAL'' t)
          else (case expect SEMI rest of Inl e \<Rightarrow> Inl e | Inr (semi, rest') \<Rightarrow> Inr rest'))"

text \<open>Every statement consumes at least one token.\<close>

lemma expect_shorter: "expect ty toks = Inr (t, rest) \<Longrightarrow> length rest < length toks"
  by (auto simp: expect_def split: list.splits if_splits)

lemma parseEnumPath_le: "parseEnumPath parts toks = Inr (parts', rest) \<Longrightarrow> length rest \<le> length toks"
proof (induction parts toks rule: parseEnumPath.induct)
  case (1 parts)
  then show ?case by simp
next
  case (2 parts t rest0)
  show ?case
  proof (cases "tok_type t = DOT")
    case False
    with "2.prems" show ?thesis by simp
  next
    case True
    with "2.prems" obtain u rest' where r: "rest0 = u # rest'" and u: "tok_type u = IDENT"
      and p: "parseEnumPath (parts @ [tok_value u]) rest' = Inr (parts', rest)"
      by (auto split: list.splits if_splits)
    from "2.IH" [OF True r _ p] u have "length rest \<le> length rest'" by simp
    with r show ?thesis by simp
  qed
qed

lemma parseValue_shorter: "parseValue J toks = Inr (v, rest) \<Longrightarrow> length rest < length toks"
  by (auto simp: parseValue_def split: list.splits if_splits sum.splits
      dest!: parseEnumPath_le)

lemma parseAssign_shorter: "parseAssign J rs toks m = Inr (m', rest) \<Longrightarrow> length rest < length toks"
  by (auto simp: parseAssign_def split: list.splits if_splits sum.splits
      dest!: expect_shorter parseValue_shorter)

lemma parseQuery_shorter: "parseQuery toks = Inr rest \<Longrightarrow> length rest < length toks"
  by (auto simp: parseQuery_def split: list.splits if_splits sum.splits dest!: expect_shorter)

text \<open>The statement loop of \<^verbatim>\<open>parseSSELangProgram\<close>, on the map and the flag \<^verbatim>\<open>seenQuery\<close>.\<close>

function parse_loop ::
  "'n numeric \<Rightarrow> 'n ruleset \<Rightarrow> token list \<Rightarrow> 'n fieldmap \<Rightarrow> bool \<Rightarrow> js_error + ('n fieldmap \<times> bool)" where
  "parse_loop J rs toks m seenQuery =
     (case toks of
        [] \<Rightarrow> Inl past_end
      | t # ts \<Rightarrow>
          if tok_type t = EOF then Inr (m, seenQuery)
          else if tok_type t = IDENT then
            (case parseAssign J rs toks m of
               Inl e \<Rightarrow> Inl e
             | Inr (m', rest) \<Rightarrow> parse_loop J rs rest m' seenQuery)
          else if tok_type t = KW_CHECK \<or> tok_type t = KW_EVAL then
            (case parseQuery toks of
               Inl e \<Rightarrow> Inl e
             | Inr rest \<Rightarrow> parse_loop J rs rest m True)
          else Inl (unexpected (''unexpected token '' @ type_name (tok_type t)) t))"
  by pat_completeness auto
termination
proof (relation "measure (\<lambda>(J, rs, toks, m, seenQuery). length toks)", goal_cases)
  case 1
  show ?case by simp
next
  case (2 J rs toks m seenQuery t ts r m' rest)
  then have "parseAssign J rs toks m = Inr (m', rest)" by simp
  from parseAssign_shorter [OF this] show ?case by simp
next
  case (3 J rs toks m seenQuery t ts rest)
  from parseQuery_shorter [OF 3(5)] show ?case by simp
qed

declare parse_loop.simps [simp del]

definition parseSSELangProgram ::
  "'n numeric \<Rightarrow> string \<Rightarrow> 'n ruleset \<Rightarrow> js_error + ('n fieldmap \<times> bool)" where
  "parseSSELangProgram J text rs =
     (case tokenizeSSE text of
        Inl e \<Rightarrow> Inl e
      | Inr toks \<Rightarrow> parse_loop J rs toks [] False)"

definition parseSSELangOrLegacy :: "'n numeric \<Rightarrow> string \<Rightarrow> 'n ruleset \<Rightarrow> js_error + 'n fieldmap" where
  "parseSSELangOrLegacy J text rs =
     (if isLikelySSELang text then
        (case parseSSELangProgram J text rs of
           Inl e \<Rightarrow> Inl e
         | Inr (m, seenQuery) \<Rightarrow> Inr m)
      else Inr (parseKeyValueLines J text rs))"

section \<open>Evaluation of one submission\<close>

text \<open>
  The click handler of \<^verbatim>\<open>main\<close>: parse, derive, decide, attach the derivations. An error
  thrown on the way ends the evaluation.
\<close>

definition evaluate ::
  "('n::linorder) numeric \<Rightarrow> string \<Rightarrow> 'n ruleset \<Rightarrow> js_error + ('n decision \<times> 'n derivation list)" where
  "evaluate J input rs =
     (case parseSSELangOrLegacy J input rs of
        Inl e \<Rightarrow> Inl e
      | Inr m \<Rightarrow>
          (let (m', derivations) = deriveInput J m rs in
           case decide J rs m' of
             Inl e \<Rightarrow> Inl e
           | Inr result \<Rightarrow> Inr (result, derivations)))"

section \<open>Trace\<close>

text \<open>
  The values \<^verbatim>\<open>stableStringify\<close> walks: primitives, and references to the objects and
  arrays of a heap. An object is the list of its own enumerable properties in the order
  of \<^verbatim>\<open>Object.keys\<close>; the address of an object is its index in the heap.
\<close>

datatype 'n jv = JUndefined | JNull | JBool bool | JNum 'n | JStr string | JRef nat

datatype 'n jobj = JArray "'n jv list" | JObject "(string \<times> 'n jv) list"

type_synonym 'n heap = "'n jobj list"

text \<open>What \<^verbatim>\<open>recur\<close> returns: a fresh structure that shares nothing.\<close>

datatype 'n tree =
    TUndefined | TNull | TBool bool | TNum 'n | TStr string
  | TArray "'n tree list"
  | TObject "(string \<times> 'n tree) list"

text \<open>
  A property key is an array index when it is the canonical decimal text of an integer
  below \<open>2^32 - 1\<close>. An ordinary object lists its own properties with the array indices
  first, in ascending numeric order, then the other keys in the order of their creation;
  and the assignment \<^verbatim>\<open>out["__proto__"] = v\<close> on an object made by \<^verbatim>\<open>{}\<close> creates no own
  property.
\<close>

definition index_value :: "string \<Rightarrow> int" where
  "index_value k = foldl (\<lambda>a c. 10 * a + (int (code_unit c) - 48)) 0 k"

definition is_array_index :: "string \<Rightarrow> bool" where
  "is_array_index k =
     (k \<noteq> [] \<and> list_all is_digit k \<and> (k = ''0'' \<or> hd k \<noteq> CHR ''0'') \<and>
      index_value k < 4294967295)"

definition own_property_order :: "(string \<times> 'a) list \<Rightarrow> (string \<times> 'a) list" where
  "own_property_order ps =
     sort_key (\<lambda>p. index_value (fst p)) (filter (\<lambda>p. is_array_index (fst p)) ps) @
     filter (\<lambda>p. \<not> is_array_index (fst p)) ps"

definition assign_all :: "(string \<times> 'a) list \<Rightarrow> (string \<times> 'a) list" where
  "assign_all ps = own_property_order (filter (\<lambda>p. fst p \<noteq> ''__proto__'') ps)"

text \<open>
  \<^verbatim>\<open>recur\<close>, with the set \<^verbatim>\<open>seen\<close> threaded through the calls. The first argument bounds
  the depth of the walk; \<open>recur_list\<close> is \<^verbatim>\<open>x.map(recur)\<close> and the loop over the sorted
  keys. A reference that points outside the heap is no value of the program and gives
  \<open>None\<close>, as running out of depth does.
\<close>

fun recur :: "nat \<Rightarrow> 'n heap \<Rightarrow> nat list \<Rightarrow> 'n jv \<Rightarrow> ('n tree \<times> nat list) option"
  and recur_list :: "nat \<Rightarrow> 'n heap \<Rightarrow> nat list \<Rightarrow> 'n jv list \<Rightarrow> ('n tree list \<times> nat list) option" where
  "recur fuel h seen JUndefined = Some (TUndefined, seen)"
| "recur fuel h seen JNull = Some (TNull, seen)"
| "recur fuel h seen (JBool b) = Some (TBool b, seen)"
| "recur fuel h seen (JNum n) = Some (TNum n, seen)"
| "recur fuel h seen (JStr s) = Some (TStr s, seen)"
| "recur 0 h seen (JRef a) = None"
| "recur (Suc fuel) h seen (JRef a) =
     (if a \<in> set seen then Some (TNull, seen)
      else if a \<ge> length h then None
      else (case h ! a of
        JArray xs \<Rightarrow>
          (case recur_list fuel h (a # seen) xs of
             None \<Rightarrow> None
           | Some (ts, seen') \<Rightarrow> Some (TArray ts, seen'))
      | JObject props \<Rightarrow>
          (let keys = sort (map fst props) in
           case recur_list fuel h (a # seen) (map (\<lambda>k. the (map_of props k)) keys) of
             None \<Rightarrow> None
           | Some (ts, seen') \<Rightarrow> Some (TObject (assign_all (zip keys ts)), seen'))))"
| "recur_list fuel h seen [] = Some ([], seen)"
| "recur_list fuel h seen (x # xs) =
     (case recur fuel h seen x of
        None \<Rightarrow> None
      | Some (t, seen1) \<Rightarrow>
          (case recur_list fuel h seen1 xs of
             None \<Rightarrow> None
           | Some (ts, seen2) \<Rightarrow> Some (t # ts, seen2)))"

text \<open>\<^verbatim>\<open>JSON.stringify\<close> on what \<^verbatim>\<open>recur\<close> returns.\<close>

definition hex_digit :: "nat \<Rightarrow> char" where
  "hex_digit d = ''0123456789abcdef'' ! d"

definition json_char :: "char \<Rightarrow> string" where
  "json_char c =
     (let n = code_unit c in
      if c = CHR 0x22 then [CHR 0x5C, CHR 0x22]
      else if c = CHR 0x5C then [CHR 0x5C, CHR 0x5C]
      else if n = 8 then [CHR 0x5C, CHR ''b'']
      else if n = 12 then [CHR 0x5C, CHR ''f'']
      else if n = 10 then [CHR 0x5C, CHR ''n'']
      else if n = 13 then [CHR 0x5C, CHR ''r'']
      else if n = 9 then [CHR 0x5C, CHR ''t'']
      else if n < 32 then [CHR 0x5C, CHR ''u'', CHR ''0'', CHR ''0'', hex_digit (n div 16), hex_digit (n mod 16)]
      else [c])"

definition json_quote :: "string \<Rightarrow> string" where
  "json_quote s = [CHR 0x22] @ concat (map json_char s) @ [CHR 0x22]"

fun join :: "string \<Rightarrow> string list \<Rightarrow> string" where
  "join sep [] = []"
| "join sep [x] = x"
| "join sep (x # y # ys) = x @ sep @ join sep (y # ys)"

text \<open>
  The text of a value, or \<open>None\<close> where \<^verbatim>\<open>JSON.stringify\<close> gives \<^verbatim>\<open>undefined\<close>: a property with
  such a value is left out of its object, an array element is written \<^verbatim>\<open>null\<close>.
\<close>

fun json_text :: "'n numeric \<Rightarrow> 'n tree \<Rightarrow> string option"
  and json_elements :: "'n numeric \<Rightarrow> 'n tree list \<Rightarrow> string list"
  and json_members :: "'n numeric \<Rightarrow> (string \<times> 'n tree) list \<Rightarrow> string list" where
  "json_text J TUndefined = None"
| "json_text J TNull = Some ''null''"
| "json_text J (TBool b) = Some (if b then ''true'' else ''false'')"
| "json_text J (TNum n) = Some (if is_finite J n then num_to_string J n else ''null'')"
| "json_text J (TStr s) = Some (json_quote s)"
| "json_text J (TArray ts) = Some (''['' @ join '','' (json_elements J ts) @ '']'')"
| "json_text J (TObject ps) = Some (''{'' @ join '','' (json_members J ps) @ ''}'')"
| "json_elements J [] = []"
| "json_elements J (t # ts) =
     (case json_text J t of None \<Rightarrow> ''null'' | Some x \<Rightarrow> x) # json_elements J ts"
| "json_members J [] = []"
| "json_members J ((k, t) # ps) =
     (case json_text J t of
        None \<Rightarrow> json_members J ps
      | Some x \<Rightarrow> (json_quote k @ '':'' @ x) # json_members J ps)"

text \<open>
  \<^verbatim>\<open>stableStringify\<close>. The walk enters each object at most once, so a depth of the number
  of objects in the heap, and one more, is never exhausted.
\<close>

definition stableStringify :: "'n numeric \<Rightarrow> 'n heap \<Rightarrow> 'n jv \<Rightarrow> string option" where
  "stableStringify J h obj =
     (case recur (Suc (length h)) h [] obj of
        None \<Rightarrow> None
      | Some (t, seen) \<Rightarrow> json_text J t)"

text \<open>\<^verbatim>\<open>simpleHash\<close>: the accumulator is a 32-bit integer throughout (\<^verbatim>\<open>^=\<close>, \<^verbatim>\<open>Math.imul\<close>,
  \<^verbatim>\<open>>>> 0\<close>).\<close>

definition hash_step :: "char \<Rightarrow> 32 word \<Rightarrow> 32 word" where
  "hash_step c h = (h XOR of_nat (code_unit c)) * 16777619"

text \<open>\<^verbatim>\<open>n.toString(16)\<close> on a number that is not negative.\<close>

function to_hex :: "int \<Rightarrow> string" where
  "to_hex n =
     (if n < 16 then [hex_digit (nat n)] else to_hex (n div 16) @ [hex_digit (nat (n mod 16))])"
  by pat_completeness auto
termination
  by (relation "measure nat") auto

declare to_hex.simps [simp del]

definition padStart :: "nat \<Rightarrow> char \<Rightarrow> string \<Rightarrow> string" where
  "padStart n c s = replicate (n - length s) c @ s"

definition simpleHash :: "string \<Rightarrow> string" where
  "simpleHash str = padStart 8 (CHR ''0'') (to_hex (uint (fold hash_step str (2166136261 :: 32 word))))"

text \<open>
  The payload \<^verbatim>\<open>tracePayload\<close> of \<^verbatim>\<open>renderResult\<close>, allocated object by object; \<open>now\<close> is
  the text of \<^verbatim>\<open>new Date().toISOString()\<close>.
\<close>

definition alloc :: "'n jobj \<Rightarrow> 'n heap \<Rightarrow> 'n jv \<times> 'n heap" where
  "alloc ob h = (JRef (length h), h @ [ob])"

fun alloc_all :: "'n jobj list \<Rightarrow> 'n heap \<Rightarrow> 'n jv list \<times> 'n heap" where
  "alloc_all [] h = ([], h)"
| "alloc_all (ob # obs) h =
     (let (r, h1) = alloc ob h; (rs, h2) = alloc_all obs h1 in (r # rs, h2))"

fun to_jv :: "'n jsval \<Rightarrow> 'n jv" where
  "to_jv (Num n) = JNum n"
| "to_jv (Str s) = JStr s"
| "to_jv (Bool b) = JBool b"
| "to_jv Null = JNull"
| "to_jv Undefined = JUndefined"

fun verdict_text :: "verdict \<Rightarrow> string" where
  "verdict_text NO = ''NO''"
| "verdict_text YES_STAR = ''YES*''"
| "verdict_text YES_ADVISORY = ''YES (ADVISORY)''"
| "verdict_text YES = ''YES''"

text \<open>\<^verbatim>\<open>x || ""\<close> on a member that is a string or missing.\<close>

definition or_empty :: "string option \<Rightarrow> string" where
  "or_empty x = (if truthy x then the x else [])"

text \<open>
  \<^verbatim>\<open>{ name: d.name, value: d.value,
     from: Array.isArray(d.from) ? d.from.map(x => ({ field: x.field, level: x.level })) : undefined }\<close>
\<close>

definition derivation_obj :: "'n derivation \<Rightarrow> 'n heap \<Rightarrow> 'n jv \<times> 'n heap" where
  "derivation_obj d h =
     (case der_from d of
        None \<Rightarrow>
          alloc (JObject [(''name'', JStr (der_name d)), (''value'', to_jv (der_value d)),
                          (''from'', JUndefined)]) h
      | Some contributors \<Rightarrow>
          (let (items, h1) =
                 alloc_all (map (\<lambda>x. JObject [(''field'', JStr (fst x)), (''level'', JStr (snd x))])
                              contributors) h;
               (arr, h2) = alloc (JArray items) h1
           in alloc (JObject [(''name'', JStr (der_name d)), (''value'', to_jv (der_value d)),
                              (''from'', arr)]) h2))"

fun derivation_objs :: "'n derivation list \<Rightarrow> 'n heap \<Rightarrow> 'n jv list \<times> 'n heap" where
  "derivation_objs [] h = ([], h)"
| "derivation_objs (d # ds) h =
     (let (r, h1) = derivation_obj d h; (rs, h2) = derivation_objs ds h1 in (r # rs, h2))"

definition tracePayload ::
  "string \<Rightarrow> 'n ruleset \<Rightarrow> 'n decision \<Rightarrow> 'n derivation list \<Rightarrow> 'n jv \<times> 'n heap" where
  "tracePayload now rs result derivations =
     (let (ruleset_ref, h1) =
            alloc (JObject [(''spec'', to_jv (rs_spec rs)), (''version'', to_jv (rs_version rs)),
                            (''source'', to_jv (rs_source rs))]) [];
          (primary, h2) =
            (case d_rule result of
               None \<Rightarrow> (JNull, h1)
             | Some r \<Rightarrow>
                 alloc (JObject [(''id'', JStr (rule_id r)), (''cit'', JStr (or_empty (rule_cit r))),
                                 (''level'', JStr (or_empty (rule_level r)))]) h1);
          (triggered, h3) = alloc (JArray (map (\<lambda>r. JStr (rule_id r)) (d_triggered result))) h2;
          (ders, h4) = derivation_objs derivations h3;
          (ders_ref, h5) = alloc (JArray ders) h4
      in alloc (JObject [(''when'', JStr now),
                         (''ruleset'', ruleset_ref),
                         (''verdict'', JStr (verdict_text (d_verdict result))),
                         (''judgement'', (case d_judgement result of None \<Rightarrow> JUndefined | Some j \<Rightarrow> JStr j)),
                         (''primary_rule'', primary),
                         (''triggered'', triggered),
                         (''derivations'', ders_ref)]) h5)"

text \<open>
  \<^verbatim>\<open>`SSE-${simpleHash(stableStringify(tracePayload))}`\<close>; were the text \<^verbatim>\<open>undefined\<close>, the
  read of its length in \<^verbatim>\<open>simpleHash\<close> would throw.
\<close>

definition traceId ::
  "'n numeric \<Rightarrow> string \<Rightarrow> 'n ruleset \<Rightarrow> 'n decision \<Rightarrow> 'n derivation list \<Rightarrow> js_error + string" where
  "traceId J now rs result derivations =
     (let (root, h) = tracePayload now rs result derivations in
      case stableStringify J h root of
        None \<Rightarrow> Inl (TypeError ''Cannot read properties of undefined (reading length)'')
      | Some s \<Rightarrow> Inr (''SSE-'' @ simpleHash s))"

text \<open>
  The click handler with the trace: the decision, the derivations attached to it, and
  the trace identifier \<^verbatim>\<open>renderResult\<close> shows.
\<close>

definition main_click ::
  "('n::linorder) numeric \<Rightarrow> string \<Rightarrow> string \<Rightarrow> 'n ruleset \<Rightarrow>
   js_error + ('n decision \<times> 'n derivation list \<times> string)" where
  "main_click J now input rs =
     (case evaluate J input rs of
        Inl e \<Rightarrow> Inl e
      | Inr (result, derivations) \<Rightarrow>
          (case traceId J now rs result derivations of
             Inl e \<Rightarrow> Inl e
           | Inr tid \<Rightarrow> Inr (result, derivations, tid)))"

text \<open>
  A heap is well formed when every reference in it points to one of its objects and no
  object has a key twice.
\<close>

fun valid_jv :: "'n heap \<Rightarrow> 'n jv \<Rightarrow> bool" where
  "valid_jv h (JRef a) = (a < length h)"
| "valid_jv h v = True"

fun valid_obj :: "'n heap \<Rightarrow> 'n jobj \<Rightarrow> bool" where
  "valid_obj h (JArray xs) = list_all (valid_jv h) xs"
| "valid_obj h (JObject props) = (list_all (\<lambda>p. valid_jv h (snd p)) props \<and> distinct (map fst props))"

definition valid_heap :: "'n heap \<Rightarrow> bool" where
  "valid_heap h = list_all (valid_obj h) h"

text \<open>
  The order in which \<^verbatim>\<open>JSON.stringify\<close> writes the keys of an object that \<^verbatim>\<open>recur\<close> built:
  the array indices first, ascending by value, then the other keys, ascending as strings;
  and that order at every object of a structure.
\<close>

definition js_ordered :: "string list \<Rightarrow> bool" where
  "js_ordered ks =
     (ks = filter is_array_index ks @ filter (\<lambda>k. \<not> is_array_index k) ks \<and>
      sorted (map index_value (filter is_array_index ks)) \<and>
      sorted (filter (\<lambda>k. \<not> is_array_index k) ks))"

fun ordered_tree :: "'n tree \<Rightarrow> bool"
  and ordered_trees :: "'n tree list \<Rightarrow> bool"
  and ordered_members :: "(string \<times> 'n tree) list \<Rightarrow> bool" where
  "ordered_tree (TArray ts) = ordered_trees ts"
| "ordered_tree (TObject ps) = (js_ordered (map fst ps) \<and> ordered_members ps)"
| "ordered_tree t = True"
| "ordered_trees [] = True"
| "ordered_trees (t # ts) = (ordered_tree t \<and> ordered_trees ts)"
| "ordered_members [] = True"
| "ordered_members (p # ps) = (ordered_tree (snd p) \<and> ordered_members ps)"

text \<open>The outcome of a submission without its trace identifier.\<close>

definition without_trace ::
  "js_error + ('n decision \<times> 'n derivation list \<times> string) \<Rightarrow> js_error + ('n decision \<times> 'n derivation list)" where
  "without_trace r =
     (case r of
        Inl e \<Rightarrow> Inl e
      | Inr (result, derivations, tid) \<Rightarrow> Inr (result, derivations))"

text \<open>
  The 32-bit FNV-1a hash of a text: from the offset basis, each code unit is combined
  by exclusive or and the result multiplied by the FNV prime, modulo \<open>2^32\<close>.
\<close>

fun fnv1a_rev :: "string \<Rightarrow> 32 word" where
  "fnv1a_rev [] = 2166136261"
| "fnv1a_rev (c # cs) = (fnv1a_rev cs XOR of_nat (code_unit c)) * 16777619"

definition fnv1a :: "string \<Rightarrow> 32 word" where
  "fnv1a str = fnv1a_rev (rev str)"

section \<open>An instance of the numbers, and example data\<close>

text \<open>
  Exact decimal numbers as an instance of the number interface: the texts the parsers
  accept (\<^verbatim>\<open>-?\d+(\.\d+)?\<close>) denote rationals, written back in positional notation.
\<close>

fun show_nat :: "nat \<Rightarrow> string" where
  "show_nat n =
     (if n < 10 then [char_of (48 + n)] else show_nat (n div 10) @ [char_of (48 + n mod 10)])"

declare show_nat.simps [simp del]

definition parse_decimal :: "string \<Rightarrow> rat" where
  "parse_decimal s =
     (let neg = (case s of c # _ \<Rightarrow> c = CHR ''-'' | [] \<Rightarrow> False);
          t = (if neg then tl s else s);
          ip = takeWhile is_digit t;
          fp = drop 1 (dropWhile is_digit t);
          q = of_nat (parse_nat ip) + of_nat (parse_nat fp) / 10 ^ length fp
      in if neg then - q else q)"

fun frac_digits :: "nat \<Rightarrow> rat \<Rightarrow> string" where
  "frac_digits 0 q = []"
| "frac_digits (Suc k) q =
     (if q = 0 then []
      else (let d = nat \<lfloor>q * 10\<rfloor> in char_of (48 + d) # frac_digits k (q * 10 - of_nat d)))"

definition show_decimal :: "rat \<Rightarrow> string" where
  "show_decimal q =
     (let a = \<bar>q\<bar>; ip = nat \<lfloor>a\<rfloor>; fr = a - of_nat ip
      in (if q < 0 then ''-'' else []) @ show_nat ip @
         (if fr = 0 then [] else ''.'' @ frac_digits 17 fr))"

definition decimal_numeric :: "rat numeric" where
  "decimal_numeric =
     \<lparr> num_to_string = show_decimal, parse_float = parse_decimal, parse_int = parse_decimal,
       of_count = of_nat, is_finite = (\<lambda>_. True) \<rparr>"

text \<open>
  A small ruleset: one hard rule \<open>R1\<close> (dimensionality \<open>3d\<close> is infeasible), one soft
  rule \<open>R2\<close> on an ordinal field, and a scale for that field.
\<close>

definition cond_dim :: "rat cond" where
  "cond_dim = \<lparr> c_raw = None, c_field = Some ''IonPathDimensionality'', c_op = Some ''='',
                c_value = Str ''3d'' \<rparr>"

definition cond_rel :: "rat cond" where
  "cond_rel = \<lparr> c_raw = None, c_field = Some ''DataReliability'', c_op = Some ''<'',
                c_value = Str ''full'' \<rparr>"

definition rule_R1 :: "rat rule" where
  "rule_R1 = \<lparr> rule_id = ''R1'', rule_name = ''No 3D paths'', rule_cit = Some ''S1'',
                rule_level = None, rule_if = [cond_dim],
                rule_then = Some \<lparr> judgement = Some ''Infeasible'' \<rparr> \<rparr>"

definition rule_R2 :: "rat rule" where
  "rule_R2 = \<lparr> rule_id = ''R2'', rule_name = ''Weak data'', rule_cit = None,
                rule_level = Some ''soft'', rule_if = [cond_rel],
                rule_then = Some \<lparr> judgement = Some ''Caution'' \<rparr> \<rparr>"

definition example_ruleset :: "rat ruleset" where
  "example_ruleset =
     \<lparr> rs_spec = Str ''SSE-Lang'', rs_version = Str ''0.1'', rs_source = Undefined,
       defaults_level = Some ''hard'',
       aliases = [(''IonPathDimensionality'', [''Ion Path Dimensionality'']),
                  (''PathContinuity'', [''Path Continuity'']),
                  (''DataReliability'', [''Data Reliability''])],
       ordinal_scales = [(''DataReliability'', [''none'', ''partial'', ''full''])],
       rules = [rule_R1, rule_R2] \<rparr>"

text \<open>A ruleset whose only rule has no conditions and no \<^verbatim>\<open>then\<close> member.\<close>

definition rule_no_then :: "rat rule" where
  "rule_no_then = \<lparr> rule_id = ''R0'', rule_name = ''Draft rule'', rule_cit = None,
                     rule_level = None, rule_if = [], rule_then = None \<rparr>"

definition ruleset_no_then :: "rat ruleset" where
  "ruleset_no_then =
     \<lparr> rs_spec = Str ''SSE-Lang'', rs_version = Str ''0.1'', rs_source = Undefined,
       defaults_level = None, aliases = [], ordinal_scales = [], rules = [rule_no_then] \<rparr>"

text \<open>
  A ruleset in which the canonical name \<open>Dimensionality\<close> is also declared, in another
  spelling, as a synonym of the later canonical name \<open>IonPathDimensionality\<close>.
\<close>

definition ruleset_alias_clash :: "rat ruleset" where
  "ruleset_alias_clash =
     \<lparr> rs_spec = Str ''SSE-Lang'', rs_version = Str ''0.1'', rs_source = Undefined,
       defaults_level = None,
       aliases = [(''Dimensionality'', [''dim'']),
                  (''IonPathDimensionality'', [''dimensionality''])],
       ordinal_scales = [], rules = [] \<rparr>"

text \<open>
  A field map with four rating fields: two at or above \<open>moderate\<close>, one below, one with a
  level that is not on the rating scale; the derived key already holds a value.
\<close>

definition rated_map :: "rat fieldmap" where
  "rated_map =
     [(''IonPathDimensionality'', Str ''3d''),
      (''ModerateOrWorseCount'', Num 7),
      (''Rating.Stability'', Str ''moderate''),
      (''Rating.Interface'', Str ''good''),
      (''Rating.Synthesis'', Str ''major''),
      (''Rating.Cost'', Str ''steep'')]"

text \<open>A submission in the legacy dialect, with one line that has no separator.\<close>

definition legacy_input :: string where
  "legacy_input =
     ''Ion Path Dimensionality: 3D'' @ [LF] @ ''  just some words  '' @ [CR, LF, LF] @
     ''Path Continuity = flexible''"


definition cyclic_heap :: "rat heap" where
  "cyclic_heap =
     [JObject [(''self'', JRef 0), (''list'', JRef 1), (''count'', JNum 1)],
      JArray [JStr ''x'', JRef 0, JRef 1]]"

text \<open>The decision of the example ruleset on a map that triggers rule \<open>R1\<close>.\<close>

definition decision_R1 :: "rat decision" where
  "decision_R1 =
     \<lparr> d_verdict = NO, d_judgement = Some ''Infeasible'', d_rule = Some rule_R1,
       d_triggered = [rule_R1], d_triggeredHard = [rule_R1], d_triggeredSoft = [] \<rparr>"

text \<open>
  A rule with two conditions: one on a field named \<open>constructor\<close>, for which the example
  ruleset has no scale, and one on a field \<open>Porosity\<close>; and a field map that holds the
  first field and not the second.
\<close>

definition cond_constructor :: "rat cond" where
  "cond_constructor = \<lparr> c_raw = None, c_field = Some ''constructor'', c_op = Some ''='',
                         c_value = Str ''x'' \<rparr>"

definition cond_porosity :: "rat cond" where
  "cond_porosity = \<lparr> c_raw = None, c_field = Some ''Porosity'', c_op = Some ''='',
                      c_value = Str ''low'' \<rparr>"

definition rule_R3 :: "rat rule" where
  "rule_R3 = \<lparr> rule_id = ''R3'', rule_name = ''Porous build'', rule_cit = None,
                rule_level = None, rule_if = [cond_constructor, cond_porosity],
                rule_then = Some \<lparr> judgement = Some ''Caution'' \<rparr> \<rparr>"

definition constructor_map :: "rat fieldmap" where
  "constructor_map = [(''constructor'', Str ''x'')]"

section \<open>Properties\<close>

lemma indexOf_ge: "- 1 \<le> indexOf xs v"
  by (induction xs) (auto simp: Let_def)

subsection \<open>Decision\<close>

lemma collect_filter:
  assumes "\<forall>r \<in> set xs. \<exists>res. ruleMatches J rs r m = Inr res"
  shows "collect J rs m xs (t, h, s) =
     Inr (t @ filter (\<lambda>r. ruleMatches J rs r m = Inr Matched) xs,
          h @ filter (\<lambda>r. ruleMatches J rs r m = Inr Matched \<and> level_of rs r \<noteq> ''soft'') xs,
          s @ filter (\<lambda>r. ruleMatches J rs r m = Inr Matched \<and> level_of rs r = ''soft'') xs)"
  using assms
proof (induction xs arbitrary: t h s)
  case Nil
  then show ?case by simp
next
  case (Cons r rest)
  then obtain res where res: "ruleMatches J rs r m = Inr res" by auto
  from Cons.prems have "\<forall>r \<in> set rest. \<exists>res. ruleMatches J rs r m = Inr res" by simp
  note IH = Cons.IH [OF this]
  show ?case
    using res by (simp add: IH matched_def)
qed

lemma find_first_other:
  "find P xs = None \<Longrightarrow> find (\<lambda>x. \<not> P x) xs = (case xs of [] \<Rightarrow> None | x # _ \<Rightarrow> Some x)"
  by (cases xs) (auto split: if_splits)

text \<open>
  The tiers of \<^const>\<open>decide\<close> on a ruleset all of whose rules have a \<^verbatim>\<open>then\<close> member and
  are evaluated without an error: the first triggered hard rule judged infeasible gives
  \<open>NO\<close>; else the first triggered hard rule gives \<open>YES*\<close>; else the first triggered soft
  rule gives the advisory verdict; else \<open>YES\<close> with no primary rule.
\<close>

lemma decide_tiers:
  fixes J :: "('n::linorder) numeric" and rs :: "'n ruleset" and m :: "'n fieldmap"
  defines "trig \<equiv> filter (\<lambda>r. ruleMatches J rs r m = Inr Matched) (rules rs)"
    and "hard \<equiv> filter (\<lambda>r. ruleMatches J rs r m = Inr Matched \<and> level_of rs r \<noteq> ''soft'') (rules rs)"
    and "soft \<equiv> filter (\<lambda>r. ruleMatches J rs r m = Inr Matched \<and> level_of rs r = ''soft'') (rules rs)"
  assumes "\<forall>r \<in> set (rules rs). rule_then r \<noteq> None"
    and "\<forall>r \<in> set (rules rs). \<exists>res. ruleMatches J rs r m = Inr res"
  shows "\<exists>d. decide J rs m = Inr d \<and>
           d_triggered d = trig \<and> d_triggeredHard d = hard \<and> d_triggeredSoft d = soft \<and>
           (if \<exists>r \<in> set hard. judgement_lc r = ''infeasible''
            then d_verdict d = NO \<and> d_rule d = find (\<lambda>r. judgement_lc r = ''infeasible'') hard
            else if hard \<noteq> [] then d_verdict d = YES_STAR \<and> d_rule d = Some (hd hard)
            else if soft \<noteq> [] then d_verdict d = YES_ADVISORY \<and> d_rule d = Some (hd soft)
            else d_verdict d = YES \<and> d_rule d = None)"
proof -
  have c: "collect J rs m (rules rs) ([], [], []) = Inr (trig, hard, soft)"
    using collect_filter [OF assms(5), of "[]" "[]" "[]"] by (simp add: trig_def hard_def soft_def)
  have sub: "set hard \<subseteq> set (rules rs)"
    unfolding hard_def by (rule filter_is_subset)
  let ?inf = "\<lambda>r::'n rule. judgement_lc r = ''infeasible''"
  show ?thesis
  proof (cases "find ?inf hard")
    case (Some r)
    then have ex: "\<exists>r \<in> set hard. judgement_lc r = ''infeasible''"
      by (auto simp: find_Some_iff)
    have "decide J rs m = Inr \<lparr> d_verdict = NO, d_judgement = Some ''Infeasible'', d_rule = Some r,
                d_triggered = trig, d_triggeredHard = hard, d_triggeredSoft = soft \<rparr>"
      unfolding decide_def c using Some by simp
    with ex Some show ?thesis by simp
  next
    case None
    then have no: "\<not> (\<exists>r \<in> set hard. judgement_lc r = ''infeasible'')"
      by (simp add: find_None_iff)
    note other = find_first_other [of ?inf hard, OF None]
    show ?thesis
    proof (cases hard)
      case (Cons h hs)
      with sub have "h \<in> set (rules rs)" by auto
      with assms(4) obtain t where t: "rule_then h = Some t" by auto
      have o: "find (\<lambda>r. judgement_lc r \<noteq> ''infeasible'') hard = Some h"
        using other Cons by simp
      have "decide J rs m = Inr \<lparr> d_verdict = YES_STAR, d_judgement = judgement t, d_rule = Some h,
                d_triggered = trig, d_triggeredHard = hard, d_triggeredSoft = soft \<rparr>"
        unfolding decide_def c using None o t by simp
      with no Cons show ?thesis by simp
    next
      case Nil
      have o: "find (\<lambda>r. judgement_lc r \<noteq> ''infeasible'') hard = None"
        using other Nil by simp
      show ?thesis
      proof (cases soft)
        case (Cons p ps)
        have "\<exists>j. decide J rs m = Inr \<lparr> d_verdict = YES_ADVISORY, d_judgement = j, d_rule = Some p,
                d_triggered = trig, d_triggeredHard = hard, d_triggeredSoft = soft \<rparr>"
          unfolding decide_def c using None o Cons by simp
        with no Nil Cons show ?thesis by auto
      next
        case soft_Nil: Nil
        have "decide J rs m = Inr \<lparr> d_verdict = YES,
                d_judgement = Some ''No hard infeasibility triggered'', d_rule = None,
                d_triggered = trig, d_triggeredHard = hard, d_triggeredSoft = soft \<rparr>"
          unfolding decide_def c using None o soft_Nil by simp
        with no Nil soft_Nil show ?thesis by simp
      qed
    qed
  qed
qed

text \<open>
  Claim C1 says that \<^const>\<open>decide\<close> returns a verdict for every ruleset and field map.
  On \<^const>\<open>ruleset_no_then\<close>, whose only rule has no \<^verbatim>\<open>then\<close> member, the rule triggers
  as a hard rule, no triggered hard rule is infeasible, and the return for the first
  other hard rule reads \<^verbatim>\<open>hardOther.then.judgement\<close>: \<^const>\<open>decide\<close> throws and returns
  no verdict. The reads of the same member two lines above and in the advisory branch
  are guarded with \<^verbatim>\<open>?.\<close>.
\<close>

theorem decide_rule_without_then:
  "decide decimal_numeric ruleset_no_then [] =
     Inl (TypeError ''Cannot read properties of undefined (reading judgement)'')"
  by code_simp

subsection \<open>Comparison of values\<close>

lemma indexOf_Some_iff:
  "indexOf xs v = int i \<longleftrightarrow> i < length xs \<and> xs ! i = v \<and> (\<forall>j<i. xs ! j \<noteq> v)"
proof (induction xs arbitrary: i)
  case Nil
  then show ?case by simp
next
  case (Cons x xs)
  show ?case
  proof (cases "x = v")
    case True
    then show ?thesis by (cases i) auto
  next
    case False
    show ?thesis
    proof (cases i)
      case 0
      with False indexOf_ge [of xs v] show ?thesis by (auto simp: Let_def)
    next
      case (Suc k)
      have "indexOf (x # xs) v = int (Suc k) \<longleftrightarrow> indexOf xs v = int k"
        using False indexOf_ge [of xs v] by (auto simp: Let_def)
      also have "\<dots> \<longleftrightarrow> k < length xs \<and> xs ! k = v \<and> (\<forall>j<k. xs ! j \<noteq> v)"
        by (rule Cons.IH)
      also have "\<dots> \<longleftrightarrow> Suc k < length (x # xs) \<and> (x # xs) ! Suc k = v \<and> (\<forall>j<Suc k. (x # xs) ! j \<noteq> v)"
        using False by (auto simp: less_Suc_eq_0_disj)
      finally show ?thesis using Suc by simp
    qed
  qed
qed

lemma ordinalIndex_position:
  "ordinalIndex J rs f v = Inr (Some i) \<longleftrightarrow>
     (\<exists>scale. map_of (ordinal_scales rs) f = Some scale \<and> i < length scale \<and>
        toLowerCase (scale ! i) = toLowerCase (js_string J v) \<and>
        (\<forall>j<i. toLowerCase (scale ! j) \<noteq> toLowerCase (js_string J v)))"
proof (cases "map_of (ordinal_scales rs) f")
  case None
  then show ?thesis by (simp add: ordinalIndex_def)
next
  case (Some scale)
  let ?v = "toLowerCase (js_string J v)"
  have "ordinalIndex J rs f v = Inr (Some i) \<longleftrightarrow> indexOf (map toLowerCase scale) ?v = int i"
    using Some by (auto simp: ordinalIndex_def Let_def)
  also have "\<dots> \<longleftrightarrow> i < length scale \<and> toLowerCase (scale ! i) = ?v \<and>
        (\<forall>j<i. toLowerCase (scale ! j) \<noteq> ?v)"
    by (auto simp: indexOf_Some_iff)
  finally show ?thesis using Some by simp
qed

lemma ordinalIndex_own:
  assumes "scale_read_own rs f"
  shows "\<exists>r. ordinalIndex J rs f v = Inr r"
proof (cases "map_of (ordinal_scales rs) f")
  case None
  then have "f \<notin> fst ` set (ordinal_scales rs)" by (simp add: map_of_eq_None_iff)
  with assms have "f \<notin> set object_prototype_names" by (simp add: scale_read_own_def)
  with None show ?thesis by (simp add: ordinalIndex_def)
next
  case (Some scale)
  then show ?thesis by (simp add: ordinalIndex_def Let_def)
qed

lemma compareValue_on_scale:
  assumes "ordinalIndex J rs f lhs = Inr (Some i)" and "ordinalIndex J rs f rhs = Inr (Some j)"
  shows "compareValue J rs f op lhs rhs =
     Inr (if op = Some ''>='' then i \<ge> j
          else if op = Some ''<='' then i \<le> j
          else if op = Some ''>'' then i > j
          else if op = Some ''<'' then i < j
          else if op = Some ''='' then i = j
          else if op = Some ''!='' then i \<noteq> j
          else False)"
  using assms by (simp add: compareValue_def)

lemma compareValue_off_scale:
  assumes "scale_read_own rs f" and "\<not> both_on_scale J rs f lhs rhs"
  shows "compareValue J rs f op lhs rhs =
     Inr (case (lhs, rhs) of
        (Num a, Num b) \<Rightarrow>
          (if op = Some ''>='' then a \<ge> b
           else if op = Some ''<='' then a \<le> b
           else if op = Some ''>'' then a > b
           else if op = Some ''<'' then a < b
           else if op = Some ''='' then a = b
           else if op = Some ''!='' then a \<noteq> b
           else False)
      | _ \<Rightarrow>
          (if op = Some ''='' then toLowerCase (js_string J lhs) = toLowerCase (js_string J rhs)
           else if op = Some ''!='' then toLowerCase (js_string J lhs) \<noteq> toLowerCase (js_string J rhs)
           else False))"
proof -
  from ordinalIndex_own [OF assms(1)] obtain l r where
    l: "ordinalIndex J rs f lhs = Inr l" and r: "ordinalIndex J rs f rhs = Inr r"
    by blast
  from assms(2) l r have "l = None \<or> r = None"
    by (cases l; cases r) (simp_all add: both_on_scale_def)
  then show ?thesis
    unfolding compareValue_def l r Let_def by (cases l; cases r) simp_all
qed

lemma not_both_Num:
  "\<not> (is_Num lhs \<and> is_Num rhs) \<Longrightarrow> (case (lhs, rhs) of (Num a, Num b) \<Rightarrow> P a b | _ \<Rightarrow> Q) = Q"
  by (cases lhs; cases rhs) simp_all

text \<open>
  The comparison policy, for a field whose scale is read without reaching
  \<^verbatim>\<open>Object.prototype\<close>. When both values resolve to positions \<open>i\<close> and \<open>j\<close> on the scale
  configured for the field (the first position whose lower-cased level equals the
  lower-cased text of the value, see \<open>ordinalIndex_position\<close>), each of the six operators
  holds exactly when the same relation holds between \<open>i\<close> and \<open>j\<close>. Otherwise, when both
  values are numbers, each operator is the numeric comparison. Otherwise \<open>=\<close> and \<open>!=\<close>
  compare the lower-cased texts of the two values and the four ordering operators are
  false.
\<close>

lemma compareValue_policy_own:
  fixes J :: "('n::linorder) numeric"
  assumes own: "scale_read_own rs f"
  shows
    "(\<forall>i j. ordinalIndex J rs f lhs = Inr (Some i) \<and> ordinalIndex J rs f rhs = Inr (Some j) \<longrightarrow>
        compareValue J rs f (Some ''>'') lhs rhs = Inr (i > j) \<and>
        compareValue J rs f (Some ''>='') lhs rhs = Inr (i \<ge> j) \<and>
        compareValue J rs f (Some ''<'') lhs rhs = Inr (i < j) \<and>
        compareValue J rs f (Some ''<='') lhs rhs = Inr (i \<le> j) \<and>
        compareValue J rs f (Some ''='') lhs rhs = Inr (i = j) \<and>
        compareValue J rs f (Some ''!='') lhs rhs = Inr (i \<noteq> j))
     \<and> (\<forall>a b. \<not> both_on_scale J rs f lhs rhs \<and> lhs = Num a \<and> rhs = Num b \<longrightarrow>
        compareValue J rs f (Some ''>'') lhs rhs = Inr (a > b) \<and>
        compareValue J rs f (Some ''>='') lhs rhs = Inr (a \<ge> b) \<and>
        compareValue J rs f (Some ''<'') lhs rhs = Inr (a < b) \<and>
        compareValue J rs f (Some ''<='') lhs rhs = Inr (a \<le> b) \<and>
        compareValue J rs f (Some ''='') lhs rhs = Inr (a = b) \<and>
        compareValue J rs f (Some ''!='') lhs rhs = Inr (a \<noteq> b))
     \<and> (\<not> both_on_scale J rs f lhs rhs \<and> \<not> (is_Num lhs \<and> is_Num rhs) \<longrightarrow>
        compareValue J rs f (Some ''='') lhs rhs
          = Inr (toLowerCase (js_string J lhs) = toLowerCase (js_string J rhs)) \<and>
        compareValue J rs f (Some ''!='') lhs rhs
          = Inr (toLowerCase (js_string J lhs) \<noteq> toLowerCase (js_string J rhs)) \<and>
        compareValue J rs f (Some ''>'') lhs rhs = Inr False \<and>
        compareValue J rs f (Some ''>='') lhs rhs = Inr False \<and>
        compareValue J rs f (Some ''<'') lhs rhs = Inr False \<and>
        compareValue J rs f (Some ''<='') lhs rhs = Inr False)"
proof -
  have ordinal: "\<forall>i j. ordinalIndex J rs f lhs = Inr (Some i) \<and> ordinalIndex J rs f rhs = Inr (Some j) \<longrightarrow>
        compareValue J rs f (Some ''>'') lhs rhs = Inr (i > j) \<and>
        compareValue J rs f (Some ''>='') lhs rhs = Inr (i \<ge> j) \<and>
        compareValue J rs f (Some ''<'') lhs rhs = Inr (i < j) \<and>
        compareValue J rs f (Some ''<='') lhs rhs = Inr (i \<le> j) \<and>
        compareValue J rs f (Some ''='') lhs rhs = Inr (i = j) \<and>
        compareValue J rs f (Some ''!='') lhs rhs = Inr (i \<noteq> j)"
    by (simp add: compareValue_on_scale)
  have numeric: "\<forall>a b. \<not> both_on_scale J rs f lhs rhs \<and> lhs = Num a \<and> rhs = Num b \<longrightarrow>
        compareValue J rs f (Some ''>'') lhs rhs = Inr (a > b) \<and>
        compareValue J rs f (Some ''>='') lhs rhs = Inr (a \<ge> b) \<and>
        compareValue J rs f (Some ''<'') lhs rhs = Inr (a < b) \<and>
        compareValue J rs f (Some ''<='') lhs rhs = Inr (a \<le> b) \<and>
        compareValue J rs f (Some ''='') lhs rhs = Inr (a = b) \<and>
        compareValue J rs f (Some ''!='') lhs rhs = Inr (a \<noteq> b)"
  proof (intro allI impI)
    fix a b
    assume h: "\<not> both_on_scale J rs f lhs rhs \<and> lhs = Num a \<and> rhs = Num b"
    then have off: "\<not> both_on_scale J rs f lhs rhs" and l: "lhs = Num a" and r: "rhs = Num b"
      by blast+
    show "compareValue J rs f (Some ''>'') lhs rhs = Inr (a > b) \<and>
        compareValue J rs f (Some ''>='') lhs rhs = Inr (a \<ge> b) \<and>
        compareValue J rs f (Some ''<'') lhs rhs = Inr (a < b) \<and>
        compareValue J rs f (Some ''<='') lhs rhs = Inr (a \<le> b) \<and>
        compareValue J rs f (Some ''='') lhs rhs = Inr (a = b) \<and>
        compareValue J rs f (Some ''!='') lhs rhs = Inr (a \<noteq> b)"
      unfolding compareValue_off_scale [OF own off] by (simp add: l r)
  qed
  have strings: "\<not> both_on_scale J rs f lhs rhs \<and> \<not> (is_Num lhs \<and> is_Num rhs) \<longrightarrow>
        compareValue J rs f (Some ''='') lhs rhs
          = Inr (toLowerCase (js_string J lhs) = toLowerCase (js_string J rhs)) \<and>
        compareValue J rs f (Some ''!='') lhs rhs
          = Inr (toLowerCase (js_string J lhs) \<noteq> toLowerCase (js_string J rhs)) \<and>
        compareValue J rs f (Some ''>'') lhs rhs = Inr False \<and>
        compareValue J rs f (Some ''>='') lhs rhs = Inr False \<and>
        compareValue J rs f (Some ''<'') lhs rhs = Inr False \<and>
        compareValue J rs f (Some ''<='') lhs rhs = Inr False"
  proof
    assume h: "\<not> both_on_scale J rs f lhs rhs \<and> \<not> (is_Num lhs \<and> is_Num rhs)"
    then have off: "\<not> both_on_scale J rs f lhs rhs" and nn: "\<not> (is_Num lhs \<and> is_Num rhs)"
      by blast+
    show "compareValue J rs f (Some ''='') lhs rhs
          = Inr (toLowerCase (js_string J lhs) = toLowerCase (js_string J rhs)) \<and>
        compareValue J rs f (Some ''!='') lhs rhs
          = Inr (toLowerCase (js_string J lhs) \<noteq> toLowerCase (js_string J rhs)) \<and>
        compareValue J rs f (Some ''>'') lhs rhs = Inr False \<and>
        compareValue J rs f (Some ''>='') lhs rhs = Inr False \<and>
        compareValue J rs f (Some ''<'') lhs rhs = Inr False \<and>
        compareValue J rs f (Some ''<='') lhs rhs = Inr False"
      unfolding compareValue_off_scale [OF own off] not_both_Num [OF nn] by simp
  qed
  from ordinal numeric strings show ?thesis by (intro conjI)
qed

text \<open>
  Claim C2 says that for every field, two values that are not both on a scale configured
  for the field are compared as numbers when both are numbers, and as lower-cased texts
  otherwise. The example ruleset configures no scale named \<open>toString\<close> or \<open>constructor\<close>.
  For these fields the read of the scale finds the member of \<^verbatim>\<open>Object.prototype\<close> of that
  name, which passes the guard \<^verbatim>\<open>if (!scale) return null\<close>, and \<^verbatim>\<open>scale.map\<close> is called on
  it: \<^const>\<open>compareValue\<close> throws, where the numeric comparison \<open>1 < 2\<close> and the comparison
  of the texts \<open>x\<close> and \<open>X\<close> were to hold.
\<close>

theorem compareValue_inherited_scale:
  "compareValue decimal_numeric example_ruleset ''toString'' (Some ''<'') (Num 1) (Num 2)
     = Inl (TypeError ''scale.map is not a function'') \<and>
   compareValue decimal_numeric example_ruleset ''constructor'' (Some ''='') (Str ''x'') (Str ''X'')
     = Inl (TypeError ''scale.map is not a function'') \<and>
   map_of (ordinal_scales example_ruleset) ''toString'' = None \<and>
   map_of (ordinal_scales example_ruleset) ''constructor'' = None"
proof -
  have a: "compareValue decimal_numeric example_ruleset ''toString'' (Some ''<'') (Num 1) (Num 2)
     = Inl (TypeError ''scale.map is not a function'')"
    by code_simp
  have b: "compareValue decimal_numeric example_ruleset ''constructor'' (Some ''='')
     (Str ''x'') (Str ''X'') = Inl (TypeError ''scale.map is not a function'')"
    by code_simp
  have c: "map_of (ordinal_scales example_ruleset) ''toString'' = None"
    by code_simp
  have d: "map_of (ordinal_scales example_ruleset) ''constructor'' = None"
    by code_simp
  from a b c d show ?thesis by (intro conjI)
qed

subsection \<open>Dialect selection\<close>

lemma space_not_word: "is_space c \<Longrightarrow> \<not> is_word c"
  by (auto simp: is_space_def is_word_def is_alpha_def is_digit_def Let_def)

lemma space_not_alpha: "is_space c \<Longrightarrow> \<not> is_alpha c"
  by (auto simp: is_space_def is_alpha_def Let_def)

lemma space_lower: "is_space c \<Longrightarrow> lower_char c = c"
  by (auto simp: is_space_def lower_char_def Let_def)

lemma space_not_punct:
  "is_space c \<Longrightarrow> c \<noteq> CHR '';'' \<and> c \<noteq> CHR ''#'' \<and> c \<noteq> CHR ''.''"
  by (auto simp: is_space_def code_unit_def)

lemma space_not_kw:
  "is_space c \<Longrightarrow> lower_char c \<notin> set ''check'' \<and> lower_char c \<notin> set ''eval''"
  by (auto simp: space_lower is_space_def code_unit_def)

lemma kw_at_iff:
  "kw_at kw s \<longleftrightarrow>
     (\<exists>w post. s = w @ post \<and> toLowerCase w = kw \<and> (post = [] \<or> \<not> is_word (hd post)))"
proof
  assume k: "kw_at kw s"
  let ?w = "take (length kw) s" and ?p = "drop (length kw) s"
  from k have "s = ?w @ ?p \<and> toLowerCase ?w = kw \<and> (?p = [] \<or> \<not> is_word (hd ?p))"
    by (auto simp: kw_at_def split: list.splits)
  then show "\<exists>w post. s = w @ post \<and> toLowerCase w = kw \<and> (post = [] \<or> \<not> is_word (hd post))"
    by blast
next
  assume "\<exists>w post. s = w @ post \<and> toLowerCase w = kw \<and> (post = [] \<or> \<not> is_word (hd post))"
  then obtain w post where s: "s = w @ post" and w: "toLowerCase w = kw"
    and b: "post = [] \<or> \<not> is_word (hd post)" by blast
  from w have "length w = length kw" by (auto simp: toLowerCase_def)
  with s w b show "kw_at kw s"
    by (auto simp: kw_at_def split: list.splits)
qed

text \<open>The keyword search against its reading on the text, for any state of the search.\<close>

lemma has_keyword_iff:
  "has_keyword pw s \<longleftrightarrow>
     (\<exists>pre w post. s = pre @ w @ post \<and>
        (toLowerCase w = ''check'' \<or> toLowerCase w = ''eval'') \<and>
        (if pre = [] then \<not> pw else \<not> is_word (last pre)) \<and>
        (post = [] \<or> \<not> is_word (hd post)))"
  (is "_ \<longleftrightarrow> ?K pw s")
proof (induction s arbitrary: pw)
  case Nil
  then show ?case by (auto simp: toLowerCase_def)
next
  case (Cons c cs)
  let ?s = "c # cs"
  have here: "(\<not> pw \<and> (kw_at ''check'' ?s \<or> kw_at ''eval'' ?s)) \<longleftrightarrow>
      (\<exists>w post. ?s = w @ post \<and> (toLowerCase w = ''check'' \<or> toLowerCase w = ''eval'') \<and>
         \<not> pw \<and> (post = [] \<or> \<not> is_word (hd post)))"
    unfolding kw_at_iff by blast
  have later: "?K (is_word c) cs \<longleftrightarrow>
      (\<exists>pre w post. ?s = (c # pre) @ w @ post \<and>
         (toLowerCase w = ''check'' \<or> toLowerCase w = ''eval'') \<and>
         \<not> is_word (last (c # pre)) \<and> (post = [] \<or> \<not> is_word (hd post)))"
    by simp
  have split: "?K pw ?s \<longleftrightarrow>
      (\<exists>w post. ?s = w @ post \<and> (toLowerCase w = ''check'' \<or> toLowerCase w = ''eval'') \<and>
         \<not> pw \<and> (post = [] \<or> \<not> is_word (hd post)))
      \<or> (\<exists>pre w post. ?s = (c # pre) @ w @ post \<and>
         (toLowerCase w = ''check'' \<or> toLowerCase w = ''eval'') \<and>
         \<not> is_word (last (c # pre)) \<and> (post = [] \<or> \<not> is_word (hd post)))"
    (is "?L \<longleftrightarrow> ?A \<or> ?B")
  proof
    assume ?L
    then obtain pre w post where d: "?s = pre @ w @ post"
      and k: "toLowerCase w = ''check'' \<or> toLowerCase w = ''eval''"
      and b1: "if pre = [] then \<not> pw else \<not> is_word (last pre)"
      and b2: "post = [] \<or> \<not> is_word (hd post)" by blast
    show "?A \<or> ?B"
    proof (cases pre)
      case Nil
      with d k b1 b2 have ?A by auto
      then show ?thesis ..
    next
      case (Cons x pre')
      with d have "x = c" by simp
      with Cons d k b1 b2 have ?B by (intro exI [of _ pre'] exI [of _ w] exI [of _ post]) simp
      then show ?thesis ..
    qed
  next
    assume "?A \<or> ?B"
    then show ?L
    proof
      assume ?A
      then obtain w post where "?s = [] @ w @ post"
        and "toLowerCase w = ''check'' \<or> toLowerCase w = ''eval''"
        and "\<not> pw" and "post = [] \<or> \<not> is_word (hd post)" by auto
      then show ?L by (intro exI [of _ "[]"] exI [of _ w] exI [of _ post]) simp
    next
      assume ?B
      then obtain pre w post where "?s = (c # pre) @ w @ post"
        and "toLowerCase w = ''check'' \<or> toLowerCase w = ''eval''"
        and "\<not> is_word (last (c # pre))" and "post = [] \<or> \<not> is_word (hd post)" by blast
      then show ?L by (intro exI [of _ "c # pre"] exI [of _ w] exI [of _ post]) simp
    qed
  qed
  have "has_keyword pw ?s \<longleftrightarrow>
      (\<not> pw \<and> (kw_at ''check'' ?s \<or> kw_at ''eval'' ?s)) \<or> has_keyword (is_word c) cs"
    by simp
  also have "\<dots> \<longleftrightarrow> (\<not> pw \<and> (kw_at ''check'' ?s \<or> kw_at ''eval'' ?s)) \<or> ?K (is_word c) cs"
    using Cons.IH [of "is_word c"] by simp
  also have "\<dots> \<longleftrightarrow> ?K pw ?s"
    unfolding here later split ..
  finally show ?case .
qed

lemma has_keyword_contains: "has_keyword False t \<longleftrightarrow> contains_keyword t"
proof -
  have "(if pre = [] then \<not> False else P) = (pre = [] \<or> P)" for pre :: string and P
    by simp
  then show ?thesis
    unfolding has_keyword_iff contains_keyword_def by (simp only:)
qed

lemma has_symbol_contains: "has_symbol t \<longleftrightarrow> contains_symbol t"
proof (induction t rule: has_symbol.induct)
  case 1
  then show ?case by (simp add: contains_symbol_def)
next
  case (2 c)
  then show ?case by (simp add: contains_symbol_def)
next
  case (3 c d cs)
  have "contains_symbol (c # d # cs) \<longleftrightarrow> (c = CHR ''#'' \<and> is_word d) \<or> contains_symbol (d # cs)"
    (is "?L \<longleftrightarrow> ?A \<or> ?B")
  proof
    assume ?L
    then obtain pre x post where d: "c # d # cs = pre @ CHR ''#'' # x # post" and w: "is_word x"
      unfolding contains_symbol_def by blast
    show "?A \<or> ?B"
    proof (cases pre)
      case Nil
      with d w show ?thesis by simp
    next
      case (Cons y pre')
      with d have "d # cs = pre' @ CHR ''#'' # x # post" by simp
      with w have ?B unfolding contains_symbol_def by blast
      then show ?thesis ..
    qed
  next
    assume "?A \<or> ?B"
    then show ?L
    proof
      assume ?A
      then have "c # d # cs = [] @ CHR ''#'' # d # cs \<and> is_word d" by simp
      then show ?L unfolding contains_symbol_def by blast
    next
      assume ?B
      then obtain pre x post where "d # cs = pre @ CHR ''#'' # x # post" and w: "is_word x"
        unfolding contains_symbol_def by blast
      then have "c # d # cs = (c # pre) @ CHR ''#'' # x # post" by simp
      with w show ?L unfolding contains_symbol_def by blast
    qed
  qed
  with 3 show ?case by simp
qed

lemma dot_not_word: "\<not> is_word (CHR ''.'')"
  by (simp add: is_word_def is_alpha_def is_digit_def code_unit_def)

lemma dotted_tail_Nil: "\<not> dotted_tail []"
  by (simp add: dotted_tail_def)

lemma dotted_tail_Cons:
  "dotted_tail (c # cs) \<longleftrightarrow>
     (c = CHR ''.'' \<and> (case cs of d # _ \<Rightarrow> is_alpha d | [] \<Rightarrow> False)) \<or> (is_word c \<and> dotted_tail cs)"
  (is "?L \<longleftrightarrow> ?A \<or> ?B")
proof
  assume ?L
  then obtain ws b post where d: "c # cs = ws @ CHR ''.'' # b # post"
    and w: "list_all is_word ws" and b: "is_alpha b"
    unfolding dotted_tail_def by blast
  show "?A \<or> ?B"
  proof (cases ws)
    case Nil
    with d b show ?thesis by simp
  next
    case (Cons x ws')
    with d w have "is_word c" and "cs = ws' @ CHR ''.'' # b # post" and "list_all is_word ws'"
      by simp_all
    with b have ?B unfolding dotted_tail_def by blast
    then show ?thesis ..
  qed
next
  assume "?A \<or> ?B"
  then show ?L
  proof
    assume ?A
    then obtain d post where "cs = d # post" and "is_alpha d" and "c = CHR ''.''"
      by (auto split: list.splits)
    then have "c # cs = [] @ CHR ''.'' # d # post \<and> list_all is_word [] \<and> is_alpha d" by simp
    then show ?L unfolding dotted_tail_def by blast
  next
    assume ?B
    then obtain ws b post where "cs = ws @ CHR ''.'' # b # post"
      and "list_all is_word ws" and "is_alpha b" and "is_word c"
      unfolding dotted_tail_def by blast
    then have "c # cs = (c # ws) @ CHR ''.'' # b # post \<and> list_all is_word (c # ws) \<and> is_alpha b"
      by simp
    then show ?L unfolding dotted_tail_def by blast
  qed
qed

lemma contains_dotted_Nil: "\<not> contains_dotted []"
  by (simp add: contains_dotted_def)

lemma contains_dotted_Cons:
  "contains_dotted (c # cs) \<longleftrightarrow> (is_alpha c \<and> dotted_tail cs) \<or> contains_dotted cs"
  (is "?L \<longleftrightarrow> ?A \<or> ?B")
proof
  assume ?L
  then obtain pre a ws b post where d: "c # cs = pre @ a # ws @ CHR ''.'' # b # post"
    and a: "is_alpha a" and w: "list_all is_word ws" and b: "is_alpha b"
    unfolding contains_dotted_def by blast
  show "?A \<or> ?B"
  proof (cases pre)
    case Nil
    with d have "c = a" and "cs = ws @ CHR ''.'' # b # post" by simp_all
    with a w b have ?A unfolding dotted_tail_def by blast
    then show ?thesis ..
  next
    case (Cons x pre')
    with d have "cs = pre' @ a # ws @ CHR ''.'' # b # post" by simp
    with a w b have ?B unfolding contains_dotted_def by blast
    then show ?thesis ..
  qed
next
  assume "?A \<or> ?B"
  then show ?L
  proof
    assume ?A
    then obtain ws b post where "cs = ws @ CHR ''.'' # b # post"
      and "list_all is_word ws" and "is_alpha b" and "is_alpha c"
      unfolding dotted_tail_def by blast
    then have "c # cs = [] @ c # ws @ CHR ''.'' # b # post \<and> is_alpha c \<and> list_all is_word ws \<and> is_alpha b"
      by simp
    then show ?L unfolding contains_dotted_def by blast
  next
    assume ?B
    then obtain pre a ws b post where "cs = pre @ a # ws @ CHR ''.'' # b # post"
      and "is_alpha a" and "list_all is_word ws" and "is_alpha b"
      unfolding contains_dotted_def by blast
    then have "c # cs = (c # pre) @ a # ws @ CHR ''.'' # b # post \<and> is_alpha a \<and> list_all is_word ws \<and> is_alpha b"
      by simp
    then show ?L unfolding contains_dotted_def by blast
  qed
qed

lemma alpha_word: "is_alpha c \<Longrightarrow> is_word c"
  by (simp add: is_word_def)

lemma has_dotted_iff: "has_dotted ok s \<longleftrightarrow> (ok \<and> dotted_tail s) \<or> contains_dotted s"
proof (induction s arbitrary: ok)
  case Nil
  then show ?case by (simp add: dotted_tail_Nil contains_dotted_Nil)
next
  case (Cons c cs)
  show ?case
    unfolding has_dotted.simps Cons.IH dotted_tail_Cons contains_dotted_Cons
    using alpha_word [of c] by blast
qed

lemma has_dotted_contains: "has_dotted False t \<longleftrightarrow> contains_dotted t"
  by (simp add: has_dotted_iff)

lemma kw_at_space_head:
  assumes "lower_char c \<notin> set kw" and "kw \<noteq> []"
  shows "\<not> kw_at kw (c # s)"
proof
  assume "kw_at kw (c # s)"
  then have "toLowerCase (take (length kw) (c # s)) = kw" by (simp add: kw_at_def)
  moreover from assms(2) obtain n where "length kw = Suc n" by (cases kw) auto
  ultimately have "lower_char c # toLowerCase (take n s) = kw" by (simp add: toLowerCase_def)
  then have "lower_char c \<in> set kw" by (metis list.set_intros(1))
  with assms(1) show False by simp
qed

lemma kw_at_snoc:
  assumes sp: "\<not> is_word c" and nk: "lower_char c \<notin> set kw"
  shows "kw_at kw (s @ [c]) = kw_at kw s"
proof (cases "length s < length kw")
  case True
  then have t: "take (length kw) (s @ [c]) = s @ [c]" by simp
  have "toLowerCase (s @ [c]) \<noteq> kw"
  proof
    assume "toLowerCase (s @ [c]) = kw"
    then have "lower_char c \<in> set kw" by (auto simp: toLowerCase_def)
    with nk show False by simp
  qed
  moreover have "toLowerCase (take (length kw) s) \<noteq> kw"
  proof
    assume "toLowerCase (take (length kw) s) = kw"
    then have "length (take (length kw) s) = length kw"
      by (metis length_map toLowerCase_def)
    with True show False by simp
  qed
  ultimately have "\<not> kw_at kw (s @ [c])" and "\<not> kw_at kw s"
    unfolding kw_at_def t by simp_all
  then show ?thesis by simp
next
  case False
  then have t: "take (length kw) (s @ [c]) = take (length kw) s"
    and d: "drop (length kw) (s @ [c]) = drop (length kw) s @ [c]" by simp_all
  show ?thesis
    unfolding kw_at_def t d using sp by (cases "drop (length kw) s") simp_all
qed

lemma has_keyword_snoc:
  assumes "is_space c"
  shows "has_keyword pw (s @ [c]) = has_keyword pw s"
proof (induction s arbitrary: pw)
  case Nil
  have "\<not> kw_at ''check'' [c]" and "\<not> kw_at ''eval'' [c]"
    by (simp_all add: kw_at_def toLowerCase_def)
  then show ?case by simp
next
  case (Cons x xs)
  from space_not_kw [OF assms]
  have n1: "lower_char c \<notin> set ''check''" and n2: "lower_char c \<notin> set ''eval''"
    by blast+
  have "kw_at ''check'' ((x # xs) @ [c]) = kw_at ''check'' (x # xs)"
    by (rule kw_at_snoc [OF space_not_word [OF assms] n1])
  moreover have "kw_at ''eval'' ((x # xs) @ [c]) = kw_at ''eval'' (x # xs)"
    by (rule kw_at_snoc [OF space_not_word [OF assms] n2])
  ultimately show ?case using Cons by simp
qed

lemma has_symbol_snoc: "is_space c \<Longrightarrow> has_symbol (s @ [c]) = has_symbol s"
  by (induction s rule: has_symbol.induct) (auto dest: space_not_word)

lemma has_dotted_snoc: "is_space c \<Longrightarrow> has_dotted ok (s @ [c]) = has_dotted ok s"
proof (induction s arbitrary: ok)
  case Nil
  then show ?case by simp
next
  case (Cons x xs)
  then show ?case by (cases xs) (auto dest: space_not_alpha)
qed

lemma scan_lead:
  assumes "is_space c"
  shows "scan (c # s) = scan s"
proof -
  have k: "\<not> kw_at ''check'' (c # s)" "\<not> kw_at ''eval'' (c # s)"
    using space_not_kw [OF assms] by (simp_all add: kw_at_space_head)
  have y: "has_symbol (c # s) = has_symbol s"
    using space_not_punct [OF assms] by (cases s) simp_all
  show ?thesis
    unfolding scan_def y
    using k space_not_word [OF assms] space_not_alpha [OF assms] space_not_punct [OF assms]
    by auto
qed

lemma scan_trail: "is_space c \<Longrightarrow> scan (s @ [c]) = scan s"
  using space_not_punct [of c]
  by (auto simp: scan_def has_keyword_snoc has_symbol_snoc has_dotted_snoc)

lemma scan_dropWhile: "scan (dropWhile is_space s) = scan s"
  by (induction s) (simp_all add: scan_lead)

lemma scan_drop_trailing: "scan (rev (dropWhile is_space (rev s))) = scan s"
  by (induction s rule: rev_induct) (simp_all add: scan_trail)

lemma scan_trim: "scan (trim s) = scan s"
  by (simp add: trim_def scan_drop_trailing scan_dropWhile)

lemma isLikelySSELang_scan: "isLikelySSELang text = scan (trim text)"
  by (auto simp: isLikelySSELang_def scan_def Let_def)

text \<open>
  Claim C3. \<^const>\<open>isLikelySSELang\<close> is a function of the text alone, and it selects the DSL
  dialect exactly when the text holds a semicolon, a query keyword (\<open>CHECK\<close> or \<open>EVAL\<close> in
  any mix of cases, as a whole word), a marker \<open>#\<close> followed by a word character, or a
  dotted identifier pattern; the trimming that the function does first changes none of
  the four.
\<close>

theorem isLikelySSELang_selects: "isLikelySSELang text \<longleftrightarrow> selects_dsl text"
  unfolding isLikelySSELang_scan scan_trim
  by (simp add: scan_def selects_dsl_def has_keyword_contains has_symbol_contains
      has_dotted_contains)

theorem isLikelySSELang_selects_witness:
  "isLikelySSELang ''DataReliability: reliability.partial'' \<and>
   selects_dsl ''DataReliability: reliability.partial'' \<and>
   \<not> isLikelySSELang ''checksum: 1.5'' \<and> \<not> selects_dsl ''checksum: 1.5''"
proof -
  have a: "isLikelySSELang ''DataReliability: reliability.partial''"
    by code_simp
  have b: "\<not> isLikelySSELang ''checksum: 1.5''"
    by code_simp
  from a b isLikelySSELang_selects [of "''DataReliability: reliability.partial''"]
    isLikelySSELang_selects [of "''checksum: 1.5''"]
  show ?thesis by simp
qed

subsection \<open>Rule evaluation on an absent field\<close>

lemma map_has_iff: "map_has m k \<longleftrightarrow> k \<in> fst ` set m"
  by (simp add: map_has_def map_of_eq_None_iff)

text \<open>A rule that holds a condition on an absent field never matches.\<close>

lemma conds_match_absent:
  "c \<in> set cs \<Longrightarrow> field_absent m c \<Longrightarrow> conds_match J rs cs m \<noteq> Inr Matched"
proof (induction cs)
  case Nil
  then show ?case by simp
next
  case (Cons d ds)
  show ?case
  proof (cases "d = c")
    case True
    with Cons.prems(2) show ?thesis
      by (auto simp: field_absent_def map_has_iff split: option.splits)
  next
    case False
    with Cons have "conds_match J rs ds m \<noteq> Inr Matched" by simp
    then show ?thesis
      by (auto split: option.splits sum.splits)
  qed
qed

text \<open>
  When no condition of the rule reads a scale from \<^verbatim>\<open>Object.prototype\<close>, the evaluation of
  the rule throws nothing, and with a condition on an absent field it is a non-match.
\<close>

lemma conds_match_own:
  assumes "\<forall>c \<in> set cs. \<forall>f. c_field c = Some f \<longrightarrow> scale_read_own rs f"
  shows "\<exists>res. conds_match J rs cs m = Inr res"
  using assms
proof (induction cs)
  case Nil
  then show ?case by simp
next
  case (Cons d ds)
  then obtain res where res: "conds_match J rs ds m = Inr res" by auto
  show ?case
  proof (cases "c_field d")
    case None
    then show ?thesis by simp
  next
    case (Some f)
    with Cons.prems have "scale_read_own rs f" by simp
    then have own: "scale_read_own rs f" .
    have cmp: "\<exists>b. compareValue J rs f (c_op d) lhs (c_value d) = Inr b" for lhs
    proof -
      from ordinalIndex_own [OF own] obtain l r where
        "ordinalIndex J rs f lhs = Inr l" and "ordinalIndex J rs f (c_value d) = Inr r"
        by blast
      then show ?thesis by (simp add: compareValue_def)
    qed
    show ?thesis
    proof (cases "map_get m f")
      case None
      with Some show ?thesis by simp
    next
      case (Some lhs)
      from cmp [of lhs] obtain b where "compareValue J rs f (c_op d) lhs (c_value d) = Inr b"
        by blast
      with Some \<open>c_field d = Some f\<close> res show ?thesis by simp
    qed
  qed
qed

lemma ruleMatches_absent_own:
  assumes "c \<in> set (rule_if rule)" and "field_absent m c"
    and "\<forall>c \<in> set (rule_if rule). \<forall>f. c_field c = Some f \<longrightarrow> scale_read_own rs f"
  shows "\<exists>res. ruleMatches J rs rule m = Inr res \<and> \<not> matched res"
  using conds_match_absent [OF assms(1,2), of J rs] conds_match_own [OF assms(3), of J m]
  by (auto simp: matched_def ruleMatches_def)

text \<open>
  Claim C4 says that a rule with a condition on an absent field is reported as a non-match
  and that its evaluation never raises an error. The second condition of \<^const>\<open>rule_R3\<close>
  is on the field \<open>Porosity\<close>, absent from \<^const>\<open>constructor_map\<close>. The first condition is
  on the field \<open>constructor\<close>, which the map holds and for which the example ruleset has
  no scale: the read of the scale finds \<^verbatim>\<open>Object.prototype.constructor\<close>, and
  \<^const>\<open>ruleMatches\<close> throws instead of returning a non-match.
\<close>

theorem ruleMatches_absent_field_raises:
  "cond_porosity \<in> set (rule_if rule_R3) \<and>
   field_absent constructor_map cond_porosity \<and>
   ruleMatches decimal_numeric example_ruleset rule_R3 constructor_map
     = Inl (TypeError ''scale.map is not a function'')"
proof -
  have a: "cond_porosity \<in> set (rule_if rule_R3)"
    by (simp add: rule_R3_def)
  have b: "field_absent constructor_map cond_porosity"
    by (simp add: field_absent_def cond_porosity_def constructor_map_def)
  have c: "ruleMatches decimal_numeric example_ruleset rule_R3 constructor_map
     = Inl (TypeError ''scale.map is not a function'')"
    by code_simp
  from a b c show ?thesis by (intro conjI)
qed

subsection \<open>Derived fields\<close>

lemma rank_moderate: "ratingRank ''moderate'' = 3"
  by code_simp

lemma derive_loop_result:
  "derive_loop J es (d, c, t) =
     (d @ map (\<lambda>e. rating_warning (fst e) (rating_level J (snd e))) (unrecognized J es),
      c @ moderate_or_worse J es,
      t + length (rating_fields es))"
proof (induction es arbitrary: d c t)
  case Nil
  then show ?case by (simp add: unrecognized_def moderate_or_worse_def rating_fields_def)
next
  case (Cons e es)
  obtain k v where e: "e = (k, v)" by (cases e)
  show ?case
  proof (cases "is_rating_key k")
    case False
    with Cons e show ?thesis
      by (simp add: unrecognized_def moderate_or_worse_def rating_fields_def)
  next
    case True
    note rk = this
    show ?thesis
    proof (cases "ratingRank (rating_level J v) = -1")
      case True
      with Cons rk e show ?thesis
        by (simp add: unrecognized_def moderate_or_worse_def rating_fields_def Let_def)
    next
      case False
      with Cons rk e show ?thesis
        by (simp add: unrecognized_def moderate_or_worse_def rating_fields_def Let_def rank_moderate)
    qed
  qed
qed

lemma deriveInput_result:
  "deriveInput J m rs =
     (if rating_fields m = [] then (m, [])
      else (map_set (derivedKey rs) (Num (of_count J (length (moderate_or_worse J m)))) m,
            map (\<lambda>e. rating_warning (fst e) (rating_level J (snd e))) (unrecognized J m) @
            [\<lparr> der_name = ''ModerateOrWorseCount'',
               der_value = Num (of_count J (length (moderate_or_worse J m))),
               der_from = Some (moderate_or_worse J m) \<rparr>,
             \<lparr> der_name = ''AnyCriticalFlag'',
               der_value = Bool (list_ex (\<lambda>x. snd x = ''critical'') (moderate_or_worse J m)),
               der_from = None \<rparr>]))"
proof (cases "rating_fields m = []")
  case True
  then have "unrecognized J m = []" by (simp add: unrecognized_def)
  with True show ?thesis by (simp add: deriveInput_def derive_loop_result)
next
  case False
  then show ?thesis by (simp add: deriveInput_def derive_loop_result Let_def)
qed

lemma moderate_or_worse_le: "length (moderate_or_worse J m) \<le> length (rating_fields m)"
  by (simp add: moderate_or_worse_def)

lemma map_set_get: "map_get (map_set k v m) k' = (if k' = k then Some v else map_get m k')"
  by (simp add: map_get_def map_set_def update_conv')

text \<open>
  Claim C5. When the field map has no rating field, \<^const>\<open>deriveInput\<close> returns the map
  unchanged and an empty list of derivations. Otherwise the tally it stores under the
  derived key and reports in the \<open>ModerateOrWorseCount\<close> derivation is the number of
  rating fields whose level stands at or after \<open>moderate\<close> on the rating scale, which is at
  most the number of rating fields present (and, a length, at least 0). A rating field
  whose level is not on the scale yields a derivation named \<open>RatingParseWarning\<close>, whose
  value is the message that the field was ignored, with the key and the level in it,
  and the field is not among the contributors of the tally. \<^const>\<open>deriveInput\<close> has no
  failing branch.
\<close>

theorem deriveInput_tally:
  "(rating_fields m = [] \<longrightarrow> deriveInput J m rs = (m, []))
   \<and> (rating_fields m \<noteq> [] \<longrightarrow>
        (\<exists>tally contributors.
           tally = length contributors \<and> contributors = moderate_or_worse J m \<and>
           tally \<le> length (rating_fields m) \<and>
           map_get (fst (deriveInput J m rs)) (derivedKey rs) = Some (Num (of_count J tally)) \<and>
           \<lparr> der_name = ''ModerateOrWorseCount'', der_value = Num (of_count J tally),
             der_from = Some contributors \<rparr> \<in> set (snd (deriveInput J m rs))))
   \<and> (\<forall>e \<in> set (rating_fields m). ratingRank (rating_level J (snd e)) = -1 \<longrightarrow>
         \<lparr> der_name = ''RatingParseWarning'',
           der_value = Str (''Ignored Rating field '' @ [CHR 0x27] @ fst e @ [CHR 0x27] @
                            '' with unrecognized level '' @ [CHR 0x27] @
                            rating_level J (snd e) @ [CHR 0x27]),
           der_from = None \<rparr>
           \<in> set (snd (deriveInput J m rs)) \<and>
         (fst e, rating_level J (snd e)) \<notin> set (moderate_or_worse J m))"
proof (intro conjI)
  show "rating_fields m = [] \<longrightarrow> deriveInput J m rs = (m, [])"
    by (simp add: deriveInput_result)
  show "rating_fields m \<noteq> [] \<longrightarrow>
        (\<exists>tally contributors.
           tally = length contributors \<and> contributors = moderate_or_worse J m \<and>
           tally \<le> length (rating_fields m) \<and>
           map_get (fst (deriveInput J m rs)) (derivedKey rs) = Some (Num (of_count J tally)) \<and>
           \<lparr> der_name = ''ModerateOrWorseCount'', der_value = Num (of_count J tally),
             der_from = Some contributors \<rparr> \<in> set (snd (deriveInput J m rs)))"
    by (simp add: deriveInput_result moderate_or_worse_le map_set_get)
  show "\<forall>e \<in> set (rating_fields m). ratingRank (rating_level J (snd e)) = -1 \<longrightarrow>
         \<lparr> der_name = ''RatingParseWarning'',
           der_value = Str (''Ignored Rating field '' @ [CHR 0x27] @ fst e @ [CHR 0x27] @
                            '' with unrecognized level '' @ [CHR 0x27] @
                            rating_level J (snd e) @ [CHR 0x27]),
           der_from = None \<rparr>
           \<in> set (snd (deriveInput J m rs)) \<and>
         (fst e, rating_level J (snd e)) \<notin> set (moderate_or_worse J m)"
  proof (intro ballI impI conjI)
    fix e assume e: "e \<in> set (rating_fields m)" and r: "ratingRank (rating_level J (snd e)) = -1"
    then have ne: "rating_fields m \<noteq> []" by auto
    from e r have "e \<in> set (unrecognized J m)" by (simp add: unrecognized_def)
    then have "rating_warning (fst e) (rating_level J (snd e)) \<in> set (snd (deriveInput J m rs))"
      using ne by (simp add: deriveInput_result)
    then show "\<lparr> der_name = ''RatingParseWarning'',
           der_value = Str (''Ignored Rating field '' @ [CHR 0x27] @ fst e @ [CHR 0x27] @
                            '' with unrecognized level '' @ [CHR 0x27] @
                            rating_level J (snd e) @ [CHR 0x27]),
           der_from = None \<rparr>
           \<in> set (snd (deriveInput J m rs))"
      by (simp add: rating_warning_def)
    show "(fst e, rating_level J (snd e)) \<notin> set (moderate_or_worse J m)"
    proof
      assume "(fst e, rating_level J (snd e)) \<in> set (moderate_or_worse J m)"
      then obtain e' where "ratingRank (rating_level J (snd e')) \<ge> 3"
        and "rating_level J (snd e') = rating_level J (snd e)"
        by (auto simp: moderate_or_worse_def)
      with r show False by simp
    qed
  qed
qed

theorem deriveInput_tally_witness:
  "rating_fields [(''PathContinuity'', Str ''flexible'' :: rat jsval)] = [] \<and>
   deriveInput decimal_numeric [(''PathContinuity'', Str ''flexible'')] example_ruleset
     = ([(''PathContinuity'', Str ''flexible'')], []) \<and>
   rating_fields rated_map \<noteq> [] \<and>
   length (rating_fields rated_map) = 4 \<and>
   map_get (fst (deriveInput decimal_numeric rated_map example_ruleset))
     (derivedKey example_ruleset) = Some (Num 2) \<and>
   (''Rating.Cost'', Str ''steep'') \<in> set (rating_fields rated_map) \<and>
   ratingRank (rating_level decimal_numeric (Str ''steep'')) = -1 \<and>
   \<lparr> der_name = ''RatingParseWarning'',
     der_value = Str (''Ignored Rating field '' @ [CHR 0x27] @ ''Rating.Cost'' @ [CHR 0x27] @
                      '' with unrecognized level '' @ [CHR 0x27] @ ''steep'' @ [CHR 0x27]),
     der_from = None \<rparr>
     \<in> set (snd (deriveInput decimal_numeric rated_map example_ruleset)) \<and>
   \<lparr> der_name = ''ModerateOrWorseCount'', der_value = Num 2,
     der_from = Some [(''Rating.Stability'', ''moderate''), (''Rating.Synthesis'', ''major'')] \<rparr>
     \<in> set (snd (deriveInput decimal_numeric rated_map example_ruleset)) \<and>
   (''Rating.Cost'', ''steep'') \<notin> set (moderate_or_worse decimal_numeric rated_map)"
proof -
  have a: "rating_fields [(''PathContinuity'', Str ''flexible'' :: rat jsval)] = []"
    by code_simp
  have b: "rating_fields rated_map \<noteq> []"
    by code_simp
  have n: "length (rating_fields rated_map) = 4"
    by code_simp
  have c: "moderate_or_worse decimal_numeric rated_map
             = [(''Rating.Stability'', ''moderate''), (''Rating.Synthesis'', ''major'')]"
    by code_simp
  have d: "(''Rating.Cost'', Str ''steep'') \<in> set (rating_fields rated_map)"
    by code_simp
  have l: "rating_level decimal_numeric (Str ''steep'') = ''steep''"
    by code_simp
  have r: "ratingRank (rating_level decimal_numeric (Str ''steep'')) = -1"
    by code_simp
  have k: "of_count decimal_numeric n = (of_nat n :: rat)" for n
    by (simp add: decimal_numeric_def)
  note t1 = deriveInput_tally [of "[(''PathContinuity'', Str ''flexible'')]" decimal_numeric
      example_ruleset]
  note t2 = deriveInput_tally [of rated_map decimal_numeric example_ruleset]
  from t1 a have p1: "deriveInput decimal_numeric [(''PathContinuity'', Str ''flexible'')]
      example_ruleset = ([(''PathContinuity'', Str ''flexible'')], [])"
    by simp
  from t2 b c k have p2: "map_get (fst (deriveInput decimal_numeric rated_map example_ruleset))
     (derivedKey example_ruleset) = Some (Num 2)"
    by simp
  from t2 d r l have p3: "\<lparr> der_name = ''RatingParseWarning'',
     der_value = Str (''Ignored Rating field '' @ [CHR 0x27] @ ''Rating.Cost'' @ [CHR 0x27] @
                      '' with unrecognized level '' @ [CHR 0x27] @ ''steep'' @ [CHR 0x27]),
     der_from = None \<rparr>
     \<in> set (snd (deriveInput decimal_numeric rated_map example_ruleset))"
    and p4: "(''Rating.Cost'', ''steep'') \<notin> set (moderate_or_worse decimal_numeric rated_map)"
    by force+
  from t2 b c k have p5: "\<lparr> der_name = ''ModerateOrWorseCount'', der_value = Num 2,
     der_from = Some [(''Rating.Stability'', ''moderate''), (''Rating.Synthesis'', ''major'')] \<rparr>
     \<in> set (snd (deriveInput decimal_numeric rated_map example_ruleset))"
    by simp
  from a p1 b n p2 d r p3 p5 p4 show ?thesis by (intro conjI)
qed

text \<open>
  Claim C10. When the field map has at least one rating field, the map returned by
  \<^const>\<open>deriveInput\<close> holds the tally under the derived key, whatever the map held there
  before, and every other key has the value (or the absence) it had before.
\<close>

theorem deriveInput_frame:
  assumes "rating_fields m \<noteq> []"
  shows "map_get (fst (deriveInput J m rs)) (derivedKey rs)
           = Some (Num (of_count J (length (moderate_or_worse J m))))
         \<and> (\<forall>k. k \<noteq> derivedKey rs \<longrightarrow>
               map_get (fst (deriveInput J m rs)) k = map_get m k)"
  using assms by (simp add: deriveInput_result map_set_get)

theorem deriveInput_frame_witness:
  "rating_fields rated_map \<noteq> [] \<and>
   derivedKey example_ruleset = ''ModerateOrWorseCount'' \<and>
   map_get rated_map ''ModerateOrWorseCount'' = Some (Num 7) \<and>
   map_get (fst (deriveInput decimal_numeric rated_map example_ruleset)) ''ModerateOrWorseCount''
     = Some (Num 2) \<and>
   map_get (fst (deriveInput decimal_numeric rated_map example_ruleset)) ''Rating.Cost''
     = Some (Str ''steep'')"
proof -
  have b: "rating_fields rated_map \<noteq> []"
    by code_simp
  have dk: "derivedKey example_ruleset = ''ModerateOrWorseCount''"
    by code_simp
  have old: "map_get rated_map ''ModerateOrWorseCount'' = Some (Num 7)"
    by code_simp
  have c: "length (moderate_or_worse decimal_numeric rated_map) = 2"
    by code_simp
  have k: "of_count decimal_numeric n = (of_nat n :: rat)" for n
    by (simp add: decimal_numeric_def)
  have ne: "''Rating.Cost'' \<noteq> ''ModerateOrWorseCount''"
    by simp
  have g: "map_get rated_map ''Rating.Cost'' = Some (Str ''steep'')"
    by code_simp
  note f = deriveInput_frame [OF b, of decimal_numeric example_ruleset]
  from f dk c k have p1: "map_get (fst (deriveInput decimal_numeric rated_map example_ruleset))
      ''ModerateOrWorseCount'' = Some (Num 2)"
    by simp
  from f dk ne g have p2: "map_get (fst (deriveInput decimal_numeric rated_map example_ruleset))
      ''Rating.Cost'' = Some (Str ''steep'')"
    by simp
  from b dk old p1 p2 show ?thesis by (intro conjI)
qed

subsection \<open>Legacy line dialect\<close>

lemma match_line_no_sep: "\<not> list_ex is_sep line \<Longrightarrow> match_line line = None"
proof -
  assume "\<not> list_ex is_sep line"
  then have d: "dropWhile (\<lambda>c. \<not> is_sep c) line = []"
    by (simp add: list_ex_iff dropWhile_eq_Nil_conv)
  show ?thesis unfolding match_line_def Let_def d by simp
qed

lemma fold_skip:
  assumes "\<And>x s. \<not> P x \<Longrightarrow> f x s = s"
  shows "fold f (filter P xs) s = fold f xs s"
  using assms by (induction xs arbitrary: s) auto

text \<open>
  Claim C6. \<^const>\<open>parseKeyValueLines\<close> is a total function from texts and rulesets to field
  maps: the source has no \<^verbatim>\<open>throw\<close> and calls only built-ins that are total on strings.
  A line without \<open>:\<close> and without \<open>=\<close> leaves the map as it is, so the result is the
  parse of the lines that hold a separator; and when the legacy dialect is selected, the
  parse of the submission is that map and never an error.
\<close>

theorem parseKeyValueLines_lenient:
  "(\<not> list_ex is_sep line \<longrightarrow> parse_line J rs line m = m)
   \<and> parseKeyValueLines J input rs
       = fold (parse_line J rs) (filter (list_ex is_sep) (input_lines input)) []
   \<and> (\<not> isLikelySSELang input \<longrightarrow>
        parseSSELangOrLegacy J input rs = Inr (parseKeyValueLines J input rs))"
proof (intro conjI)
  show skip: "\<not> list_ex is_sep line \<longrightarrow> parse_line J rs line m = m" for line and m :: "'a fieldmap"
    by (simp add: parse_line_def match_line_no_sep)
  show "parseKeyValueLines J input rs
       = fold (parse_line J rs) (filter (list_ex is_sep) (input_lines input)) []"
    unfolding parseKeyValueLines_def
    by (rule fold_skip [symmetric]) (simp add: skip)
  show "\<not> isLikelySSELang input \<longrightarrow>
        parseSSELangOrLegacy J input rs = Inr (parseKeyValueLines J input rs)"
    by (simp add: parseSSELangOrLegacy_def)
qed

theorem parseKeyValueLines_lenient_witness:
  "\<not> list_ex is_sep ''just some words'' \<and>
   parse_line decimal_numeric example_ruleset ''just some words'' [(''PathContinuity'', Str ''flexible'')]
     = [(''PathContinuity'', Str ''flexible'')] \<and>
   \<not> isLikelySSELang legacy_input \<and>
   parseSSELangOrLegacy decimal_numeric legacy_input example_ruleset
     = Inr [(''IonPathDimensionality'', Str ''3d''), (''PathContinuity'', Str ''flexible'')]"
proof -
  have a: "\<not> list_ex is_sep ''just some words''"
    by code_simp
  have b: "\<not> isLikelySSELang legacy_input"
    by code_simp
  have c: "parseKeyValueLines decimal_numeric legacy_input example_ruleset
             = [(''IonPathDimensionality'', Str ''3d''), (''PathContinuity'', Str ''flexible'')]"
    by code_simp
  note t1 = parseKeyValueLines_lenient [of "''just some words''" decimal_numeric example_ruleset
      "[(''PathContinuity'', Str ''flexible'')]"]
  note t2 = parseKeyValueLines_lenient [of _ decimal_numeric example_ruleset _ legacy_input]
  from t1 a have p1: "parse_line decimal_numeric example_ruleset ''just some words''
      [(''PathContinuity'', Str ''flexible'')] = [(''PathContinuity'', Str ''flexible'')]"
    by blast
  from t2 b c have p2: "parseSSELangOrLegacy decimal_numeric legacy_input example_ruleset
     = Inr [(''IonPathDimensionality'', Str ''3d''), (''PathContinuity'', Str ''flexible'')]"
    by simp
  from a p1 b p2 show ?thesis by (intro conjI)
qed

subsection \<open>Alias canonicalization\<close>

text \<open>The table holds, for each key, the canonical name last declared for it.\<close>

lemma fold_update_map_of:
  "map_of (fold (\<lambda>(k, v) t. AList.update k v t) xs t) x =
     (case map_of (rev xs) x of Some v \<Rightarrow> Some v | None \<Rightarrow> map_of t x)"
proof (induction xs arbitrary: t)
  case Nil
  then show ?case by simp
next
  case (Cons a xs)
  obtain k v where a: "a = (k, v)" by (cases a)
  have "map_of (fold (\<lambda>(k, v) t. AList.update k v t) (a # xs) t) x =
      (case map_of (rev xs) x of Some v \<Rightarrow> Some v | None \<Rightarrow> map_of (AList.update k v t) x)"
    using Cons.IH [of "AList.update k v t"] a by simp
  also have "\<dots> = (case map_of (rev (a # xs)) x of Some v \<Rightarrow> Some v | None \<Rightarrow> map_of t x)"
    using a by (simp add: update_conv' map_add_def split: option.splits)
  finally show ?case .
qed

lemma entry_sets_map_of:
  "map_of (rev (map (\<lambda>a. (toLowerCase a, c)) syns) @ [(toLowerCase c, c)]) x =
     (if declares (c, syns) x then Some c else None)"
proof (cases "declares (c, syns) x")
  case True
  let ?l = "rev (map (\<lambda>a. (toLowerCase a, c)) syns) @ [(toLowerCase c, c)]"
  from True have "x \<in> fst ` set ?l"
    by (auto simp: declares_def image_iff)
  then obtain v where v: "map_of ?l x = Some v"
    by (metis map_of_eq_None_iff not_Some_eq)
  then have "(x, v) \<in> set ?l" by (rule map_of_SomeD)
  then have "v = c" by auto
  with v True show ?thesis by simp
next
  case False
  let ?l = "rev (map (\<lambda>a. (toLowerCase a, c)) syns) @ [(toLowerCase c, c)]"
  from False have "x \<notin> fst ` set ?l"
    by (auto simp: declares_def image_iff)
  then have "map_of ?l x = None" by (rule map_of_eq_None_iff [THEN iffD2])
  with False show ?thesis by simp
qed

lemma map_of_append_case:
  "map_of (xs @ ys) x = (case map_of xs x of Some v \<Rightarrow> Some v | None \<Rightarrow> map_of ys x)"
  by (simp add: map_add_def split: option.splits)

lemma alias_sets_last: "map_of (rev (alias_sets decls)) x = last_declared decls x"
proof (induction decls)
  case Nil
  then show ?case by simp
next
  case (Cons e rest)
  obtain c syns where e: "e = (c, syns)" by (cases e)
  let ?l = "rev (map (\<lambda>a. (toLowerCase a, c)) syns) @ [(toLowerCase c, c)]"
  have "map_of (rev (alias_sets (e # rest))) x = map_of (rev (alias_sets rest) @ ?l) x"
    by (simp add: e)
  also have "\<dots> = (case map_of (rev (alias_sets rest)) x of
                     Some v \<Rightarrow> Some v | None \<Rightarrow> map_of ?l x)"
    by (rule map_of_append_case)
  also have "\<dots> = (case last_declared rest x of
                     Some v \<Rightarrow> Some v
                   | None \<Rightarrow> if declares (c, syns) x then Some c else None)"
    by (simp only: Cons.IH entry_sets_map_of)
  also have "\<dots> = last_declared (e # rest) x"
    by (simp add: e split: option.splits)
  finally show ?case .
qed

lemma table_last_declared: "map_of (aliasToCanonical rs) x = last_declared (aliases rs) x"
  by (simp add: aliasToCanonical_def fold_update_map_of alias_sets_last split: option.splits)

lemma canonKey_last_declared:
  "canonKey rs k =
     (case last_declared (aliases rs) (toLowerCase k) of
        None \<Rightarrow> k
      | Some c \<Rightarrow> if c = [] then k else c)"
  by (simp add: canonKey_def table_last_declared split: option.splits)

lemma last_declared_entry:
  "last_declared decls x = Some c \<Longrightarrow> \<exists>e \<in> set decls. fst e = c \<and> declares e x"
  by (induction decls) (auto split: option.splits if_splits)

lemma no_redeclaration_own:
  "no_redeclaration decls \<Longrightarrow> e \<in> set decls \<Longrightarrow>
   last_declared decls (toLowerCase (fst e)) = Some (fst e)"
proof (induction decls)
  case Nil
  then show ?case by simp
next
  case (Cons d rest)
  from Cons.prems(1) have nr: "no_redeclaration rest"
    and la: "list_all (\<lambda>e'. declares e' (toLowerCase (fst d)) \<longrightarrow> fst e' = fst d) rest"
    by simp_all
  show ?case
  proof (cases "e \<in> set rest")
    case True
    from Cons.IH [OF nr True] show ?thesis by simp
  next
    case False
    with Cons.prems(2) have ed: "e = d" by simp
    show ?thesis
    proof (cases "last_declared rest (toLowerCase (fst d))")
      case None
      then show ?thesis using ed by (simp add: declares_def)
    next
      case (Some c')
      from last_declared_entry [OF Some] obtain e' where
        "e' \<in> set rest" and "fst e' = c'" and "declares e' (toLowerCase (fst d))"
        by blast
      with la have "c' = fst d" by (auto simp: list_all_iff)
      with Some ed show ?thesis by simp
    qed
  qed
qed

text \<open>
  The claim C7 as stated, idempotence of \<^const>\<open>canonKey\<close> for every ruleset, fails on
  \<^const>\<open>ruleset_alias_clash\<close>: \<open>dim\<close> canonicalizes to \<open>Dimensionality\<close>, whose own
  lower-cased form is declared again by the later entry, as a synonym of
  \<open>IonPathDimensionality\<close>.
\<close>

theorem canonKey_not_idempotent:
  "canonKey ruleset_alias_clash (canonKey ruleset_alias_clash ''dim'')
     \<noteq> canonKey ruleset_alias_clash ''dim'' \<and>
   canonKey ruleset_alias_clash ''dim'' = ''Dimensionality'' \<and>
   canonKey ruleset_alias_clash ''Dimensionality'' = ''IonPathDimensionality'' \<and>
   \<not> no_redeclaration (aliases ruleset_alias_clash)"
proof -
  have a: "canonKey ruleset_alias_clash ''dim'' = ''Dimensionality''"
    by code_simp
  have b: "canonKey ruleset_alias_clash ''Dimensionality'' = ''IonPathDimensionality''"
    by code_simp
  have c: "\<not> no_redeclaration (aliases ruleset_alias_clash)"
    by code_simp
  from a b have d: "canonKey ruleset_alias_clash (canonKey ruleset_alias_clash ''dim'')
     \<noteq> canonKey ruleset_alias_clash ''dim''"
    by simp
  from d a b c show ?thesis by (intro conjI)
qed

text \<open>
  Claim C7, amended. \<^const>\<open>canonKey\<close> is the case-insensitive lookup of the canonical name
  last declared for the key: the canonical name of the last entry of the alias object
  whose lower-cased canonical name or one of whose lower-cased synonyms is the
  lower-cased key; the key itself when no entry declares it, or when that canonical name
  is empty. It is idempotent on every key for every ruleset in which no canonical name is
  declared again: no later entry declares the lower-cased canonical name of an entry,
  as its canonical name or as a synonym, under another canonical name.
\<close>

theorem canonKey_idempotent:
  "canonKey rs k =
     (case last_declared (aliases rs) (toLowerCase k) of
        None \<Rightarrow> k
      | Some c \<Rightarrow> if c = [] then k else c)
   \<and> (no_redeclaration (aliases rs) \<longrightarrow> canonKey rs (canonKey rs k) = canonKey rs k)"
proof (intro conjI impI)
  show "canonKey rs k =
     (case last_declared (aliases rs) (toLowerCase k) of
        None \<Rightarrow> k
      | Some c \<Rightarrow> if c = [] then k else c)"
    by (rule canonKey_last_declared)
next
  assume nr: "no_redeclaration (aliases rs)"
  show "canonKey rs (canonKey rs k) = canonKey rs k"
  proof (cases "last_declared (aliases rs) (toLowerCase k)")
    case None
    then have "canonKey rs k = k" by (simp add: canonKey_last_declared)
    then show ?thesis by simp
  next
    case (Some c)
    show ?thesis
    proof (cases "c = []")
      case True
      with Some have "canonKey rs k = k" by (simp add: canonKey_last_declared)
      then show ?thesis by simp
    next
      case False
      with Some have kc: "canonKey rs k = c" by (simp add: canonKey_last_declared)
      from last_declared_entry [OF Some] obtain e where
        e: "e \<in> set (aliases rs)" and c: "fst e = c"
        by blast
      from no_redeclaration_own [OF nr e] c
      have "last_declared (aliases rs) (toLowerCase c) = Some c" by simp
      with False have "canonKey rs c = c" by (simp add: canonKey_last_declared)
      with kc show ?thesis by simp
    qed
  qed
qed

theorem canonKey_idempotent_witness:
  "no_redeclaration (aliases example_ruleset) \<and>
   last_declared (aliases example_ruleset) (toLowerCase ''ion path DIMENSIONALITY'')
     = Some ''IonPathDimensionality'' \<and>
   canonKey example_ruleset ''ion path DIMENSIONALITY'' = ''IonPathDimensionality'' \<and>
   canonKey example_ruleset (canonKey example_ruleset ''ion path DIMENSIONALITY'')
     = canonKey example_ruleset ''ion path DIMENSIONALITY'' \<and>
   last_declared (aliases example_ruleset) (toLowerCase ''Porosity'') = None \<and>
   canonKey example_ruleset ''Porosity'' = ''Porosity''"
proof -
  have n: "no_redeclaration (aliases example_ruleset)"
    by code_simp
  have l: "last_declared (aliases example_ruleset) (toLowerCase ''ion path DIMENSIONALITY'')
     = Some ''IonPathDimensionality''"
    by code_simp
  have u: "last_declared (aliases example_ruleset) (toLowerCase ''Porosity'') = None"
    by code_simp
  note t1 = canonKey_idempotent [of example_ruleset "''ion path DIMENSIONALITY''"]
  note t2 = canonKey_idempotent [of example_ruleset "''Porosity''"]
  from t1 l have c1: "canonKey example_ruleset ''ion path DIMENSIONALITY''
     = ''IonPathDimensionality''"
    by simp
  from t1 n have c2: "canonKey example_ruleset
     (canonKey example_ruleset ''ion path DIMENSIONALITY'')
     = canonKey example_ruleset ''ion path DIMENSIONALITY''"
    by blast
  from t2 u have c3: "canonKey example_ruleset ''Porosity'' = ''Porosity''"
    by simp
  from n l c1 c2 u c3 show ?thesis by (intro conjI)
qed

section \<open>The trace serializer returns\<close>

text \<open>
  The set of visited objects only grows, and each object that is entered was not in it:
  on a heap without dangling references the fuel \<open>Suc (length h)\<close> is never used up.
\<close>

lemma recur_seen_grows:
  shows "recur fuel h seen x = Some (t, s) \<Longrightarrow> set seen \<subseteq> set s"
    and "recur_list fuel h seen xs = Some (ts, s) \<Longrightarrow> set seen \<subseteq> set s"
proof (induction fuel h seen x and fuel h seen xs arbitrary: t s and ts s
    rule: recur_recur_list.induct)
  case (7 fuel h seen a)
  note r = "7.prems"
  show ?case
  proof (cases "a \<in> set seen")
    case True
    with r show ?thesis by simp
  next
    case False
    note ns = this
    with r have inside: "\<not> length h \<le> a" by (auto split: if_splits)
    show ?thesis
    proof (cases "h ! a")
      case (JArray xs)
      with r ns inside obtain ts' where "recur_list fuel h (a # seen) xs = Some (ts', s)"
        by (auto split: option.splits)
      with "7.IH"(1) [OF ns inside JArray] show ?thesis by auto
    next
      case (JObject props)
      with r ns inside obtain ts' where
        "recur_list fuel h (a # seen) (map (\<lambda>k. the (map_of props k)) (sort (map fst props)))
           = Some (ts', s)"
        by (auto simp: Let_def split: option.splits)
      with "7.IH"(2) [OF ns inside JObject refl] show ?thesis by auto
    qed
  qed
next
  case (9 fuel h seen x xs)
  from "9.prems" obtain t1 s1 ts1 where a: "recur fuel h seen x = Some (t1, s1)"
    and b: "recur_list fuel h s1 xs = Some (ts1, s)"
    by (auto split: option.splits)
  from "9.IH"(1) [OF a] have "set seen \<subseteq> set s1" .
  moreover from "9.IH"(2) [OF a refl b] have "set s1 \<subseteq> set s" .
  ultimately show ?case by blast
qed simp_all

lemma unseen_less:
  assumes "a < length h" and "a \<notin> set seen"
  shows "card ({..<length h} - set (a # seen)) < card ({..<length h} - set seen)"
proof -
  have e: "{..<length h} - set (a # seen) = ({..<length h} - set seen) - {a}" by auto
  from assms have m: "a \<in> {..<length h} - set seen" by simp
  have f: "finite ({..<length h} - set seen)" by simp
  show ?thesis unfolding e by (rule card_Diff1_less [OF f m])
qed

lemma unseen_mono:
  "set seen \<subseteq> set s \<Longrightarrow> card ({..<length h} - set s) \<le> card ({..<length h} - set seen)"
  by (intro card_mono) auto

lemma object_values_valid:
  assumes "list_all (\<lambda>p. valid_jv h (snd p)) props"
  shows "list_all (valid_jv h) (map (\<lambda>k. the (map_of props k)) (sort (map fst props)))"
proof -
  have "valid_jv h (the (map_of props k))" if "k \<in> set (map fst props)" for k
  proof -
    from that obtain v where "map_of props k = Some v"
      by (metis map_of_eq_None_iff not_None_eq set_map)
    moreover from this have "(k, v) \<in> set props" by (rule map_of_SomeD)
    ultimately show ?thesis using assms by (auto simp: list_all_iff)
  qed
  then show ?thesis by (simp add: list_all_iff)
qed

lemma recur_total_aux:
  assumes vh: "valid_heap h"
  shows "(\<forall>seen x. valid_jv h x \<longrightarrow> card ({..<length h} - set seen) < fuel \<longrightarrow>
            (\<exists>t s. recur fuel h seen x = Some (t, s)))
       \<and> (\<forall>seen xs. list_all (valid_jv h) xs \<longrightarrow> card ({..<length h} - set seen) < fuel \<longrightarrow>
            (\<exists>ts s. recur_list fuel h seen xs = Some (ts, s)))"
proof (induction fuel)
  case 0
  then show ?case by simp
next
  case (Suc fuel)
  then have IHl: "\<And>seen xs. list_all (valid_jv h) xs \<Longrightarrow> card ({..<length h} - set seen) < fuel \<Longrightarrow>
            \<exists>ts s. recur_list fuel h seen xs = Some (ts, s)" by blast
  have R: "\<exists>t s. recur (Suc fuel) h seen x = Some (t, s)"
    if v: "valid_jv h x" and c: "card ({..<length h} - set seen) < Suc fuel" for seen x
  proof (cases x)
    case (JRef a)
    show ?thesis
    proof (cases "a \<in> set seen")
      case True
      with JRef show ?thesis by simp
    next
      case False
      from v JRef have a: "a < length h" by simp
      from unseen_less [OF a False] c
      have c': "card ({..<length h} - set (a # seen)) < fuel" by simp
      from vh a have vo: "valid_obj h (h ! a)"
        by (simp add: valid_heap_def list_all_length)
      show ?thesis
      proof (cases "h ! a")
        case (JArray xs)
        with vo have "list_all (valid_jv h) xs" by simp
        from IHl [OF this c'] obtain ts s where "recur_list fuel h (a # seen) xs = Some (ts, s)"
          by blast
        with JRef False a JArray show ?thesis by simp
      next
        case (JObject props)
        with vo have "list_all (\<lambda>p. valid_jv h (snd p)) props" by simp
        from IHl [OF object_values_valid [OF this] c'] obtain ts s where
          "recur_list fuel h (a # seen) (map (\<lambda>k. the (map_of props k)) (sort (map fst props)))
             = Some (ts, s)" by blast
        with JRef False a JObject show ?thesis by (simp add: Let_def)
      qed
    qed
  qed simp_all
  have L: "\<exists>ts s. recur_list (Suc fuel) h seen xs = Some (ts, s)"
    if "list_all (valid_jv h) xs" and "card ({..<length h} - set seen) < Suc fuel" for seen xs
    using that
  proof (induction xs arbitrary: seen)
    case Nil
    then show ?case by simp
  next
    case (Cons x xs)
    from Cons.prems have vx: "valid_jv h x" and vxs: "list_all (valid_jv h) xs" by simp_all
    from R [OF vx Cons.prems(2)] obtain t s1 where r: "recur (Suc fuel) h seen x = Some (t, s1)"
      by blast
    from recur_seen_grows(1) [OF r] have "set seen \<subseteq> set s1" .
    from unseen_mono [OF this, of h] Cons.prems(2)
    have "card ({..<length h} - set s1) < Suc fuel" by simp
    from Cons.IH [OF vxs this] obtain ts s2 where "recur_list (Suc fuel) h s1 xs = Some (ts, s2)"
      by blast
    with r show ?case by simp
  qed
  from R L show ?case by blast
qed

lemma recur_total:
  assumes "valid_heap h" and "valid_jv h x"
  shows "\<exists>t s. recur (Suc (length h)) h [] x = Some (t, s)"
proof -
  have "card ({..<length h} - set []) < Suc (length h)" by simp
  with recur_total_aux [OF assms(1), of "Suc (length h)"] assms(2) show ?thesis by blast
qed

text \<open>The payload of the trace is allocated on a heap without dangling references.\<close>

lemma valid_jv_app: "valid_jv h x \<Longrightarrow> valid_jv (h @ e) x"
  by (cases x) simp_all

lemma valid_obj_app: "valid_obj h ob \<Longrightarrow> valid_obj (h @ e) ob"
  by (cases ob) (auto simp: list_all_iff intro: valid_jv_app)

lemma to_jv_valid: "valid_jv h (to_jv v)"
  by (cases v) simp_all

lemma valid_heap_snoc:
  assumes "valid_heap h" and "valid_obj h ob"
  shows "valid_heap (h @ [ob])"
  using assms by (auto simp: valid_heap_def list_all_iff intro: valid_obj_app)

lemma alloc_valid:
  assumes "alloc ob h = (r, h')" and "valid_heap h" and "valid_obj h ob"
  shows "valid_heap h'" and "valid_jv h' r" and "\<exists>e. h' = h @ e"
  using assms valid_heap_snoc [OF assms(2,3)] by (auto simp: alloc_def)

lemma alloc_all_valid:
  assumes "alloc_all obs h = (rs, h')" and "valid_heap h" and "list_all (valid_obj h) obs"
  shows "valid_heap h' \<and> list_all (valid_jv h') rs \<and> (\<exists>e. h' = h @ e)"
  using assms
proof (induction obs arbitrary: h rs h')
  case Nil
  then show ?case by simp
next
  case (Cons ob obs)
  obtain r h1 where a: "alloc ob h = (r, h1)" by (cases "alloc ob h")
  obtain rs1 h2 where b: "alloc_all obs h1 = (rs1, h2)" by (cases "alloc_all obs h1")
  from Cons.prems(1) a b have eq: "rs = r # rs1" "h' = h2" by simp_all
  from Cons.prems(3) have vo: "valid_obj h ob" and vos: "list_all (valid_obj h) obs" by simp_all
  note av = alloc_valid [OF a Cons.prems(2) vo]
  from av(3) obtain e1 where e1: "h1 = h @ e1" ..
  with vos have "list_all (valid_obj h1) obs" by (auto simp: list_all_iff intro: valid_obj_app)
  from Cons.IH [OF b av(1) this]
  have v2: "valid_heap h2" and r2: "list_all (valid_jv h2) rs1" and "\<exists>e. h2 = h1 @ e" by blast+
  then obtain e2 where e2: "h2 = h1 @ e2" by blast
  from av(2) e2 have "valid_jv h2 r" by (simp add: valid_jv_app)
  with v2 r2 e1 e2 eq show ?case by simp
qed

lemma derivation_obj_valid:
  assumes "derivation_obj d h = (r, h')" and "valid_heap h"
  shows "valid_heap h' \<and> valid_jv h' r \<and> (\<exists>e. h' = h @ e)"
proof (cases "der_from d")
  case None
  let ?ob = "JObject [(''name'', JStr (der_name d)), (''value'', to_jv (der_value d)),
                          (''from'', JUndefined)]"
  from None assms(1) have a: "alloc ?ob h = (r, h')" by (simp add: derivation_obj_def)
  have "valid_obj h ?ob" by (simp add: to_jv_valid)
  from alloc_valid [OF a assms(2) this] show ?thesis by blast
next
  case (Some contributors)
  let ?items = "map (\<lambda>x. JObject [(''field'', JStr (fst x)), (''level'', JStr (snd x))]) contributors"
  obtain items h1 where a: "alloc_all ?items h = (items, h1)" by (cases "alloc_all ?items h")
  obtain arr h2 where b: "alloc (JArray items) h1 = (arr, h2)" by (cases "alloc (JArray items) h1")
  let ?ob = "JObject [(''name'', JStr (der_name d)), (''value'', to_jv (der_value d)), (''from'', arr)]"
  from Some assms(1) a b have c: "alloc ?ob h2 = (r, h')" by (simp add: derivation_obj_def)
  have "list_all (valid_obj h) ?items" by (simp add: list_all_iff)
  from alloc_all_valid [OF a assms(2) this]
  have v1: "valid_heap h1" and i1: "list_all (valid_jv h1) items" and "\<exists>e. h1 = h @ e" by blast+
  then obtain e1 where e1: "h1 = h @ e1" by blast
  from i1 have "valid_obj h1 (JArray items)" by simp
  note bv = alloc_valid [OF b v1 this]
  from bv(3) obtain e2 where e2: "h2 = h1 @ e2" ..
  from bv(2) have "valid_obj h2 ?ob" by (simp add: to_jv_valid)
  note cv = alloc_valid [OF c bv(1) this]
  from cv(3) obtain e3 where "h' = h2 @ e3" ..
  with e1 e2 have "h' = h @ (e1 @ e2 @ e3)" by simp
  with cv show ?thesis by blast
qed

lemma derivation_objs_valid:
  assumes "derivation_objs ds h = (rs, h')" and "valid_heap h"
  shows "valid_heap h' \<and> list_all (valid_jv h') rs \<and> (\<exists>e. h' = h @ e)"
  using assms
proof (induction ds arbitrary: h rs h')
  case Nil
  then show ?case by simp
next
  case (Cons d ds)
  obtain r h1 where a: "derivation_obj d h = (r, h1)" by (cases "derivation_obj d h")
  obtain rs1 h2 where b: "derivation_objs ds h1 = (rs1, h2)" by (cases "derivation_objs ds h1")
  from Cons.prems(1) a b have eq: "rs = r # rs1" "h' = h2" by simp_all
  from derivation_obj_valid [OF a Cons.prems(2)]
  have v1: "valid_heap h1" and r1: "valid_jv h1 r" and "\<exists>e. h1 = h @ e" by blast+
  then obtain e1 where e1: "h1 = h @ e1" by blast
  from Cons.IH [OF b v1]
  have v2: "valid_heap h2" and r2: "list_all (valid_jv h2) rs1" and "\<exists>e. h2 = h1 @ e" by blast+
  then obtain e2 where e2: "h2 = h1 @ e2" by blast
  from r1 e2 have "valid_jv h2 r" by (simp add: valid_jv_app)
  with v2 r2 e1 e2 eq show ?case by simp
qed

lemma tracePayload_valid:
  assumes "tracePayload now rs result derivations = (payload, h)"
  shows "valid_heap h \<and> (\<exists>a props. payload = JRef a \<and> a < length h \<and> h ! a = JObject props)"
proof -
  let ?rs_ob = "JObject [(''spec'', to_jv (rs_spec rs)), (''version'', to_jv (rs_version rs)),
                            (''source'', to_jv (rs_source rs))]"
  obtain ruleset_ref h1 where a1: "alloc ?rs_ob [] = (ruleset_ref, h1)" by (cases "alloc ?rs_ob []")
  have v0: "valid_heap ([] :: 'a heap)" by (simp add: valid_heap_def)
  have "valid_obj [] ?rs_ob" by (simp add: to_jv_valid)
  note s1 = alloc_valid [OF a1 v0 this]
  let ?prim = "case d_rule result of
               None \<Rightarrow> (JNull, h1)
             | Some r \<Rightarrow>
                 alloc (JObject [(''id'', JStr (rule_id r)), (''cit'', JStr (or_empty (rule_cit r))),
                                 (''level'', JStr (or_empty (rule_level r)))]) h1"
  obtain primary h2 where a2: "?prim = (primary, h2)" by (cases ?prim)
  have s2: "valid_heap h2 \<and> valid_jv h2 primary \<and> (\<exists>e. h2 = h1 @ e)"
  proof (cases "d_rule result")
    case None
    with a2 s1 show ?thesis by auto
  next
    case (Some r)
    let ?ob = "JObject [(''id'', JStr (rule_id r)), (''cit'', JStr (or_empty (rule_cit r))),
                                 (''level'', JStr (or_empty (rule_level r)))]"
    from Some a2 have "alloc ?ob h1 = (primary, h2)" by simp
    moreover have "valid_obj h1 ?ob" by simp
    ultimately show ?thesis using alloc_valid [of ?ob h1 primary h2] s1(1) by blast
  qed
  then obtain e2 where e2: "h2 = h1 @ e2" by blast
  let ?trig = "JArray (map (\<lambda>r. JStr (rule_id r)) (d_triggered result))"
  obtain triggered h3 where a3: "alloc ?trig h2 = (triggered, h3)" by (cases "alloc ?trig h2")
  have "valid_obj h2 ?trig" by (simp add: list_all_iff)
  from s2 have v2: "valid_heap h2" by blast
  note s3 = alloc_valid [OF a3 v2 \<open>valid_obj h2 ?trig\<close>]
  from s3(3) obtain e3 where e3: "h3 = h2 @ e3" ..
  obtain ders h4 where a4: "derivation_objs derivations h3 = (ders, h4)"
    by (cases "derivation_objs derivations h3")
  from derivation_objs_valid [OF a4 s3(1)]
  have v4: "valid_heap h4" and d4: "list_all (valid_jv h4) ders" and "\<exists>e. h4 = h3 @ e" by blast+
  then obtain e4 where e4: "h4 = h3 @ e4" by blast
  obtain ders_ref h5 where a5: "alloc (JArray ders) h4 = (ders_ref, h5)"
    by (cases "alloc (JArray ders) h4")
  from d4 have "valid_obj h4 (JArray ders)" by simp
  note s5 = alloc_valid [OF a5 v4 this]
  from s5(3) obtain e5 where e5: "h5 = h4 @ e5" ..
  let ?top = "JObject [(''when'', JStr now),
                         (''ruleset'', ruleset_ref),
                         (''verdict'', JStr (verdict_text (d_verdict result))),
                         (''judgement'', (case d_judgement result of None \<Rightarrow> JUndefined | Some j \<Rightarrow> JStr j)),
                         (''primary_rule'', primary),
                         (''triggered'', triggered),
                         (''derivations'', ders_ref)]"
  from assms a1 a2 a3 a4 a5 have top: "alloc ?top h5 = (payload, h)"
    by (simp add: tracePayload_def)
  have r1: "valid_jv h5 ruleset_ref"
    using s1(2) e2 e3 e4 e5 by (simp add: valid_jv_app)
  have r2: "valid_jv h5 primary"
    using s2 e3 e4 e5 by (simp add: valid_jv_app)
  have r3: "valid_jv h5 triggered"
    using s3(2) e4 e5 by (simp add: valid_jv_app)
  have j: "valid_jv h5 (case d_judgement result of None \<Rightarrow> JUndefined | Some j \<Rightarrow> JStr j)"
    by (simp split: option.splits)
  have "valid_obj h5 ?top"
    using r1 r2 r3 s5(2) j by simp
  from alloc_valid(1) [OF top s5(1) this] have "valid_heap h" .
  moreover from top have "payload = JRef (length h5) \<and> length h5 < length h \<and> h ! (length h5) = ?top"
    by (auto simp: alloc_def)
  ultimately show ?thesis by blast
qed

lemma stableStringify_object:
  assumes "valid_heap h" and "a < length h" and "h ! a = JObject props"
  shows "\<exists>s. stableStringify J h (JRef a) = Some s"
proof -
  from recur_total [OF assms(1), of "JRef a"] assms(2)
  obtain t s where r: "recur (Suc (length h)) h [] (JRef a) = Some (t, s)" by auto
  with assms(2,3) obtain ps where "t = TObject ps"
    by (auto simp: Let_def split: option.splits)
  with r show ?thesis by (simp add: stableStringify_def)
qed

lemma traceId_total:
  "\<exists>s. traceId J now rs result derivations = Inr (''SSE-'' @ simpleHash s) \<and>
       stableStringify J (snd (tracePayload now rs result derivations))
         (fst (tracePayload now rs result derivations)) = Some s"
proof -
  obtain payload h where p: "tracePayload now rs result derivations = (payload, h)"
    by (cases "tracePayload now rs result derivations")
  from tracePayload_valid [OF p] obtain a props where "valid_heap h" and "payload = JRef a"
    and "a < length h" and "h ! a = JObject props" by blast
  with stableStringify_object [of h a props J] obtain s where "stableStringify J h payload = Some s"
    by blast
  with p show ?thesis by (simp add: traceId_def)
qed

section \<open>Determinism of the evaluation\<close>

text \<open>
  Claim C8. The click handler, run at any instant \<open>now\<close>, yields the outcome of the
  pipeline parse, derive, decide on the input text and the ruleset, which does not
  read the clock: the same error, or the same decision (verdict, judgement, primary
  rule, triggered rules with their hard and soft parts) and the same derivation
  records. Two runs at two instants agree on all of it; only the trace identifier,
  which hashes the instant, is left out of the comparison.
\<close>

theorem evaluation_deterministic:
  "without_trace (main_click J now1 input rs) = evaluate J input rs \<and>
   without_trace (main_click J now2 input rs) = without_trace (main_click J now1 input rs)"
proof -
  have "without_trace (main_click J now input rs) = evaluate J input rs" for now
  proof (cases "evaluate J input rs")
    case (Inl e)
    then show ?thesis by (simp add: main_click_def without_trace_def)
  next
    case (Inr p)
    obtain result derivations where p: "p = (result, derivations)" by (cases p)
    from traceId_total [of J now rs result derivations]
    obtain s where "traceId J now rs result derivations = Inr (''SSE-'' @ simpleHash s)" by blast
    with Inr p show ?thesis by (simp add: main_click_def without_trace_def)
  qed
  then show ?thesis by simp
qed

theorem evaluation_deterministic_witness:
  "without_trace (main_click decimal_numeric ''2026-01-01T00:00:00.000Z'' legacy_input
     example_ruleset) = Inr (decision_R1, []) \<and>
   without_trace (main_click decimal_numeric ''2026-01-02T00:00:00.000Z'' legacy_input
     example_ruleset) = Inr (decision_R1, [])"
proof -
  have e: "evaluate decimal_numeric legacy_input example_ruleset = Inr (decision_R1, [])"
    by code_simp
  from evaluation_deterministic [of decimal_numeric "''2026-01-01T00:00:00.000Z''" legacy_input
      example_ruleset "''2026-01-02T00:00:00.000Z''"] e
  show ?thesis by simp
qed

text \<open>The trace identifiers of those two runs differ.\<close>

lemma trace_ids_differ:
  "traceId decimal_numeric ''2026-01-01T00:00:00.000Z'' example_ruleset decision_R1 []
     = Inr ''SSE-f60208e3'' \<and>
   traceId decimal_numeric ''2026-01-02T00:00:00.000Z'' example_ruleset decision_R1 []
     = Inr ''SSE-4ff5a326''"
proof -
  have a: "traceId decimal_numeric ''2026-01-01T00:00:00.000Z'' example_ruleset decision_R1 []
     = Inr ''SSE-f60208e3''"
    by code_simp
  have b: "traceId decimal_numeric ''2026-01-02T00:00:00.000Z'' example_ruleset decision_R1 []
     = Inr ''SSE-4ff5a326''"
    by code_simp
  from a b show ?thesis by (intro conjI)
qed

section \<open>Trace serialization and fingerprint\<close>

text \<open>
  The keys of every object of the tree that is serialized are in the order in which the
  engine enumerates the keys of the copy: the array indices in ascending numeric order,
  then the other keys in ascending order of their code units. Where no key is an array
  index, the keys are sorted.
\<close>

lemma js_ordered_assign:
  assumes "sorted keys"
  shows "js_ordered (map fst (assign_all (zip keys ts)))"
proof -
  let ?ps = "filter (\<lambda>p. fst p \<noteq> ''__proto__'') (zip keys ts)"
  let ?I = "filter (\<lambda>p. is_array_index (fst p)) ?ps"
  let ?A = "map fst (sort_key (\<lambda>p. index_value (fst p)) ?I)"
  let ?B = "map fst (filter (\<lambda>p. \<not> is_array_index (fst p)) ?ps)"
  have ks: "map fst (assign_all (zip keys ts)) = ?A @ ?B"
    by (simp add: assign_all_def own_property_order_def)
  have A: "\<forall>k \<in> set ?A. is_array_index k" by auto
  have B: "\<forall>k \<in> set ?B. \<not> is_array_index k" by auto
  have a1: "filter is_array_index ?A = ?A" using A by (intro filter_True)
  have a2: "filter (\<lambda>k. \<not> is_array_index k) ?A = []" using A by (intro filter_False) simp
  have b1: "filter is_array_index ?B = []" using B by (intro filter_False)
  have b2: "filter (\<lambda>k. \<not> is_array_index k) ?B = ?B" using B by (intro filter_True)
  have fA: "filter is_array_index (?A @ ?B) = ?A"
    unfolding filter_append a1 b1 by simp
  have fB: "filter (\<lambda>k. \<not> is_array_index k) (?A @ ?B) = ?B"
    unfolding filter_append a2 b2 by simp
  have sA: "sorted (map index_value ?A)"
    using sorted_sort_key [of "\<lambda>p. index_value (fst p)" ?I] by (simp add: comp_def)
  have "map fst (zip keys ts) = take (min (length keys) (length ts)) keys"
    by (rule map_fst_zip_take)
  with assms have "sorted (map fst (zip keys ts))"
    by (simp add: sorted_wrt_take)
  then have "sorted (map fst ?ps)" by (rule sorted_filter)
  then have sB: "sorted ?B" by (rule sorted_filter)
  show ?thesis
    unfolding js_ordered_def ks fA fB using sA sB by simp
qed

lemma ordered_trees_iff: "ordered_trees ts \<longleftrightarrow> (\<forall>t \<in> set ts. ordered_tree t)"
  by (induction ts) simp_all

lemma ordered_members_iff: "ordered_members ps \<longleftrightarrow> (\<forall>p \<in> set ps. ordered_tree (snd p))"
  by (induction ps) simp_all

lemma assign_all_subset: "set (assign_all ps) \<subseteq> set ps"
  by (auto simp: assign_all_def own_property_order_def)

lemma ordered_members_assign:
  assumes "ordered_trees ts"
  shows "ordered_members (assign_all (zip keys ts))"
  unfolding ordered_members_iff
proof
  fix p assume "p \<in> set (assign_all (zip keys ts))"
  with assign_all_subset have "p \<in> set (zip keys ts)" by blast
  moreover obtain k v where "p = (k, v)" by (cases p)
  ultimately have "snd p \<in> set ts" by (auto dest: set_zip_rightD)
  with assms show "ordered_tree (snd p)" by (simp add: ordered_trees_iff)
qed

lemma recur_ordered:
  shows "recur fuel h seen x = Some (t, s) \<Longrightarrow> ordered_tree t"
    and "recur_list fuel h seen xs = Some (ts, s) \<Longrightarrow> ordered_trees ts"
proof (induction fuel h seen x and fuel h seen xs arbitrary: t s and ts s
    rule: recur_recur_list.induct)
  case (7 fuel h seen a)
  note r = "7.prems"
  show ?case
  proof (cases "a \<in> set seen")
    case True
    with r show ?thesis by auto
  next
    case False
    note ns = this
    with r have inside: "\<not> length h \<le> a" by (auto split: if_splits)
    show ?thesis
    proof (cases "h ! a")
      case (JArray xs)
      with r ns inside obtain ts' where l: "recur_list fuel h (a # seen) xs = Some (ts', s)"
        and t: "t = TArray ts'"
        by (auto split: option.splits)
      from "7.IH"(1) [OF ns inside JArray l] t show ?thesis by simp
    next
      case (JObject props)
      let ?keys = "sort (map fst props)"
      from JObject r ns inside obtain ts' where
        l: "recur_list fuel h (a # seen) (map (\<lambda>k. the (map_of props k)) ?keys) = Some (ts', s)"
        and t: "t = TObject (assign_all (zip ?keys ts'))"
        by (auto simp: Let_def split: option.splits)
      from "7.IH"(2) [OF ns inside JObject refl l] have "ordered_trees ts'" .
      with t show ?thesis
        by (simp add: js_ordered_assign ordered_members_assign)
    qed
  qed
next
  case (9 fuel h seen x xs)
  from "9.prems" obtain t1 s1 ts1 where a: "recur fuel h seen x = Some (t1, s1)"
    and b: "recur_list fuel h s1 xs = Some (ts1, s)" and c: "ts = t1 # ts1"
    by (auto split: option.splits)
  from "9.IH"(1) [OF a] "9.IH"(2) [OF a refl b] c show ?case by simp
qed auto

lemma recur_list_elements:
  "recur_list fuel h seen xs = Some (ts, s) \<Longrightarrow>
   list_all2 (\<lambda>x t. \<exists>s0 s1. recur fuel h s0 x = Some (t, s1)) xs ts"
proof (induction xs arbitrary: seen ts)
  case Nil
  then show ?case by simp
next
  case (Cons x xs)
  from Cons.prems obtain t1 s1 ts1 where a: "recur fuel h seen x = Some (t1, s1)"
    and b: "recur_list fuel h s1 xs = Some (ts1, s)" and c: "ts = t1 # ts1"
    by (auto split: option.splits)
  from Cons.IH [OF b] a c show ?case by auto
qed

lemma js_ordered_plain:
  assumes "js_ordered ks" and "list_all (\<lambda>k. \<not> is_array_index k) ks"
  shows "sorted ks"
proof -
  from assms(2) have "filter (\<lambda>k. \<not> is_array_index k) ks = ks"
    by (simp add: list_all_iff filter_id_conv)
  with assms(1) show ?thesis by (simp add: js_ordered_def)
qed

text \<open>The hash is the FNV-1a hash, written as eight lower-case hexadecimal digits.\<close>

lemma hex_digit_in: "d < 16 \<Longrightarrow> hex_digit d \<in> set ''0123456789abcdef''"
proof -
  assume "d < 16"
  then have "d < length ''0123456789abcdef''" by simp
  then show ?thesis unfolding hex_digit_def by (rule nth_mem)
qed

lemma to_hex_chars: "0 \<le> n \<Longrightarrow> set (to_hex n) \<subseteq> set ''0123456789abcdef''"
proof (induction n rule: to_hex.induct)
  case (1 n)
  show ?case
  proof (cases "n < 16")
    case True
    with "1.prems" have "nat n < 16" by simp
    from hex_digit_in [OF this] True show ?thesis by (subst to_hex.simps) simp
  next
    case False
    then have "0 \<le> n div 16" by simp
    from "1.IH" [OF False this] have a: "set (to_hex (n div 16)) \<subseteq> set ''0123456789abcdef''" .
    have "nat (n mod 16) < 16" by simp
    from hex_digit_in [OF this] a False show ?thesis by (subst to_hex.simps) simp
  qed
qed

lemma to_hex_length: "0 \<le> n \<Longrightarrow> n < 16 ^ k \<Longrightarrow> 0 < k \<Longrightarrow> length (to_hex n) \<le> k"
proof (induction n arbitrary: k rule: to_hex.induct)
  case (1 n)
  show ?case
  proof (cases "n < 16")
    case True
    with "1.prems"(3) show ?thesis by (subst to_hex.simps) simp
  next
    case False
    from "1.prems"(3) obtain j where k: "k = Suc j" by (cases k) auto
    with "1.prems"(2) have d: "n div 16 < 16 ^ j" by simp
    have j: "0 < j"
    proof (rule ccontr)
      assume "\<not> 0 < j"
      with k "1.prems"(2) False show False by simp
    qed
    have "0 \<le> n div 16" using "1.prems"(1) by simp
    from "1.IH" [OF False this d j] k False show ?thesis by (subst to_hex.simps) simp
  qed
qed

lemma simpleHash_shape:
  "length (simpleHash str) = 8 \<and> set (simpleHash str) \<subseteq> set ''0123456789abcdef''"
proof -
  let ?h = "fold hash_step str (2166136261 :: 32 word)"
  have nonneg: "0 \<le> uint ?h" by simp
  have "uint ?h < 2 ^ 32" using uint_bounded [of ?h] by simp
  then have "uint ?h < 16 ^ 8" by simp
  from to_hex_length [OF nonneg this] have le: "length (to_hex (uint ?h)) \<le> 8" by simp
  from to_hex_chars [OF nonneg] have ch: "set (to_hex (uint ?h)) \<subseteq> set ''0123456789abcdef''" .
  from le have "length (simpleHash str) = 8" by (simp add: simpleHash_def padStart_def)
  moreover from ch have "set (simpleHash str) \<subseteq> set ''0123456789abcdef''"
    by (auto simp: simpleHash_def padStart_def)
  ultimately show ?thesis by blast
qed

lemma fold_hash_fnv1a: "fold hash_step str 2166136261 = fnv1a str"
proof -
  have "fold hash_step str b = foldr hash_step (rev str) b" for b
    by (simp add: foldr_conv_fold)
  moreover have "foldr hash_step cs 2166136261 = fnv1a_rev cs" for cs
    by (induction cs) (simp_all add: hash_step_def)
  ultimately show ?thesis by (simp add: fnv1a_def)
qed

lemma recur_array:
  assumes "recur (Suc fuel) h seen (JRef a) = Some (t, s)" and "a \<notin> set seen"
    and "a < length h" and "h ! a = JArray xs"
  shows "\<exists>ts. t = TArray ts \<and> list_all2 (\<lambda>x t. \<exists>s0 s1. recur fuel h s0 x = Some (t, s1)) xs ts"
proof -
  from assms obtain ts where l: "recur_list fuel h (a # seen) xs = Some (ts, s)" and "t = TArray ts"
    by (auto split: option.splits)
  with recur_list_elements [OF l] show ?thesis by blast
qed

text \<open>
  On \<^const>\<open>cyclic_heap\<close>, each reference back to an object that the walk has entered is
  replaced by \<^verbatim>\<open>null\<close>, and the order of the array is kept.
\<close>

lemma recur_cyclic_heap:
  "recur 3 cyclic_heap [] (JRef 0)
     = Some (TObject [(''count'', TNum 1), (''list'', TArray [TStr ''x'', TNull, TNull]),
                      (''self'', TNull)], [1, 0])"
  by code_simp


end
